theory Spec2Isabelle
  imports Main "HOL-Library.AList"
begin

section \<open>Python values, dictionaries and exceptions\<close>

text \<open>
  The values that occur in the keyword dictionaries of \<^verbatim>\<open>pylexibank/cldf.py\<close>:
  \<^verbatim>\<open>None\<close>, strings, unbounded integers and lists of strings (the \<^verbatim>\<open>Segments\<close>
  of a lexeme). A string is a list of code points below 256.
\<close>

datatype pyval = PNone | PStr string | PInt int | PList "string list"

text \<open>
  A \<^verbatim>\<open>dict\<close> with string keys is an association list in insertion order; the first
  pair of a key is the binding. \<^verbatim>\<open>d[k] = v\<close> is \<open>AList.update k v d\<close>: it replaces the
  value in place when the key is bound and appends the pair otherwise.
\<close>

type_synonym dict = "(string \<times> pyval) list"

datatype error =
    is_ValueError: ValueError string
  | is_KeyError: KeyError string
  | is_AttributeError: AttributeError string
  | is_TypeError: TypeError string
  | is_OtherError: OtherError string

text \<open>Truth value of an object, as \<^verbatim>\<open>if x:\<close> tests it.\<close>

fun truthy :: "pyval \<Rightarrow> bool" where
  "truthy PNone = False"
| "truthy (PStr s) = (s \<noteq> [])"
| "truthy (PInt i) = (i \<noteq> 0)"
| "truthy (PList xs) = (xs \<noteq> [])"

text \<open>Lists cannot be hashed: they are neither dict keys nor set members.\<close>

fun hashable :: "pyval \<Rightarrow> bool" where
  "hashable (PList xs) = False"
| "hashable v = True"

text \<open>\<^verbatim>\<open>d.get(k)\<close>: the value, or \<^verbatim>\<open>None\<close> when the key is missing.\<close>

definition dict_get :: "dict \<Rightarrow> string \<Rightarrow> pyval" where
  "dict_get d k = (case map_of d k of None \<Rightarrow> PNone | Some v \<Rightarrow> v)"

text \<open>\<^verbatim>\<open>d[k]\<close>: raises \<^verbatim>\<open>KeyError\<close> when the key is missing.\<close>

definition getitem :: "dict \<Rightarrow> string \<Rightarrow> error + pyval" where
  "getitem d k = (case map_of d k of None \<Rightarrow> Inl (KeyError k) | Some v \<Rightarrow> Inr v)"

text \<open>\<^verbatim>\<open>d.setdefault(k, v)\<close>: binds the key only when it is missing.\<close>

definition setdefault :: "'k \<Rightarrow> 'v \<Rightarrow> ('k \<times> 'v) list \<Rightarrow> ('k \<times> 'v) list" where
  "setdefault k v d = (case map_of d k of None \<Rightarrow> d @ [(k, v)] | Some _ \<Rightarrow> d)"

subsection \<open>\<^verbatim>\<open>'{0}'.format(x)\<close>\<close>

definition digit_char :: "nat \<Rightarrow> char" where
  "digit_char n = ''0123456789'' ! n"

fun str_nat :: "nat \<Rightarrow> string" where
  "str_nat n = (if n < 10 then [digit_char n] else str_nat (n div 10) @ [digit_char (n mod 10)])"

declare str_nat.simps [simp del]

definition str_int :: "int \<Rightarrow> string" where
  "str_int i = (if i < 0 then CHR ''-'' # str_nat (nat (- i)) else str_nat (nat i))"

definition hex_char :: "nat \<Rightarrow> char" where
  "hex_char n = ''0123456789abcdef'' ! n"

text \<open>
  \<^verbatim>\<open>repr\<close> of a string: single quotes unless the string holds a single quote and no
  double quote; the quote and the backslash are escaped, tab, newline and carriage return
  are written \<^verbatim>\<open>\t \n \r\<close>, and every other non-printable code point (below 32, 127 to
  160, and 173) as \<^verbatim>\<open>\xhh\<close>.
\<close>

definition repr_char :: "char \<Rightarrow> char \<Rightarrow> string" where
  "repr_char q c =
     (let n = (of_char c :: nat) in
      if c = q \<or> c = CHR 0x5C then [CHR 0x5C, c]
      else if n = 9 then [CHR 0x5C, CHR ''t'']
      else if n = 10 then [CHR 0x5C, CHR ''n'']
      else if n = 13 then [CHR 0x5C, CHR ''r'']
      else if n < 32 \<or> (127 \<le> n \<and> n \<le> 160) \<or> n = 173
        then [CHR 0x5C, CHR ''x'', hex_char (n div 16), hex_char (n mod 16)]
      else [c])"

definition repr_str :: "string \<Rightarrow> string" where
  "repr_str s =
     (let q = (if CHR 0x27 \<in> set s \<and> CHR 0x22 \<notin> set s then CHR 0x22 else CHR 0x27)
      in q # concat (map (repr_char q) s) @ [q])"

fun join :: "string \<Rightarrow> string list \<Rightarrow> string" where
  "join sep [] = []"
| "join sep [x] = x"
| "join sep (x # y # ys) = x @ sep @ join sep (y # ys)"

fun format0 :: "pyval \<Rightarrow> string" where
  "format0 PNone = ''None''"
| "format0 (PStr s) = s"
| "format0 (PInt i) = str_int i"
| "format0 (PList xs) = ''['' @ join '', '' (map repr_str xs) @ '']''"

subsection \<open>\<^verbatim>\<open>ID_PATTERN\<close>\<close>

text \<open>
  \<^verbatim>\<open>ID_PATTERN = re.compile('[A-Za-z0-9_\-]+$')\<close>, used as \<^verbatim>\<open>ID_PATTERN.match(s)\<close>.
  \<^verbatim>\<open>match\<close> anchors at the start of the string. The class holds no newline, so the
  greedy run is the longest prefix of class characters; \<^verbatim>\<open>$\<close> (without
  \<^verbatim>\<open>re.MULTILINE\<close>) matches at the end of the string and also just before a newline
  that is the last character of the string.
\<close>

definition id_char :: "char \<Rightarrow> bool" where
  "id_char c =
     (let n = (of_char c :: nat) in
      (65 \<le> n \<and> n \<le> 90) \<or> (97 \<le> n \<and> n \<le> 122) \<or> (48 \<le> n \<and> n \<le> 57)
      \<or> c = CHR ''_'' \<or> c = CHR ''-'')"

definition ID_PATTERN_match :: "string \<Rightarrow> bool" where
  "ID_PATTERN_match s =
     (let rest = dropWhile id_char s in
      takeWhile id_char s \<noteq> [] \<and> (rest = [] \<or> rest = [CHR 0x0A]))"

section \<open>The record store\<close>

text \<open>
  A record class (\<^verbatim>\<open>lexeme_class\<close>, \<^verbatim>\<open>language_class\<close>, \<^verbatim>\<open>concept_class\<close>,
  \<^verbatim>\<open>cognate_class\<close>) is defined outside \<^verbatim>\<open>cldf.py\<close>. The store uses two things of it:
  the table name \<^verbatim>\<open>cls.__cldf_table__()\<close>, and \<^verbatim>\<open>attr.asdict(cls(**kw))\<close>, which
  runs the validators of the class and may raise.
\<close>

record cls =
  cldf_table :: string
  asdict_new :: "dict \<Rightarrow> error + dict"

text \<open>
  The mutable attributes of \<^verbatim>\<open>Dataset\<close> and of the \<^verbatim>\<open>self.dataset\<close> object it
  writes to. \<open>'an\<close> is the per-language \<^verbatim>\<open>Analysis\<close> state. \<open>debug_log\<close> collects
  the messages given to \<^verbatim>\<open>self.dataset.log.debug\<close>, \<open>printed\<close> the arguments of
  \<^verbatim>\<open>print\<close>, \<open>written\<close> the table maps handed to \<^verbatim>\<open>self.write\<close>.
\<close>

record 'an state =
  count :: int
  cognate_count :: int
  objects :: "(string \<times> dict list) list"
  obj_index :: "(string \<times> pyval set) list"
  tr_analyses :: "(pyval \<times> 'an) list"
  tr_bad_words :: "dict list"
  tr_invalid_words :: "dict list"
  debug_log :: "string list"
  printed :: "(pyval \<times> dict) list"
  written :: "(string \<times> dict list) list list"

text \<open>
  The loop of \<^verbatim>\<open>_add_object\<close> over the identifier keys: a value that is not
  \<^verbatim>\<open>None\<close> is replaced by its string, and the insertion raises when that string does
  not match.
\<close>

fun stringify_ids :: "string \<Rightarrow> string list \<Rightarrow> dict \<Rightarrow> error + dict" where
  "stringify_ids t [] d = Inr d"
| "stringify_ids t (key # keys) d =
     (if dict_get d key \<noteq> PNone then
        (let s = format0 (dict_get d key); d' = AList.update key (PStr s) d in
         if \<not> ID_PATTERN_match s
         then Inl (ValueError (''invalid CLDF identifier '' @ t @ ''-'' @ key @ '': '' @ s))
         else stringify_ids t keys d')
      else stringify_ids t keys d)"

definition id_keys :: "string list" where
  "id_keys = [''ID'', ''Language_ID'', ''Parameter_ID'', ''Cognateset_ID'']"

text \<open>
  The first part of \<^verbatim>\<open>_add_object\<close>: the dict of the instantiated object with its
  identifiers turned into strings and checked. It reads nothing of the store.
\<close>

definition validate :: "cls \<Rightarrow> dict \<Rightarrow> error + dict" where
  "validate c kw =
     (case asdict_new c kw of
        Inl e \<Rightarrow> Inl e
      | Inr d \<Rightarrow> stringify_ids (cldf_table c) id_keys d)"

text \<open>
  \<^verbatim>\<open>_add_object\<close>. The result is the returned dict or the exception, together with
  the state the call leaves behind in either case. \<^verbatim>\<open>self._obj_index[t]\<close> and
  \<^verbatim>\<open>self.objects[t]\<close> raise \<^verbatim>\<open>KeyError\<close> for a table that has no entry.
\<close>

definition add_object :: "'an state \<Rightarrow> cls \<Rightarrow> dict \<Rightarrow> (error + dict) \<times> 'an state" where
  "add_object s c kw =
     (case validate c kw of
        Inl e \<Rightarrow> (Inl e, s)
      | Inr d \<Rightarrow>
          (let t = cldf_table c in
           case map_of d ''ID'' of
             None \<Rightarrow>
               (case map_of (objects s) t of
                  None \<Rightarrow> (Inl (KeyError t), s)
                | Some os \<Rightarrow> (Inr d, s\<lparr>objects := AList.update t (os @ [d]) (objects s)\<rparr>))
           | Some i \<Rightarrow>
               (case map_of (obj_index s) t of
                  None \<Rightarrow> (Inl (KeyError t), s)
                | Some idx \<Rightarrow>
                    if i \<notin> idx then
                      (let s1 = s\<lparr>obj_index := AList.update t (insert i idx) (obj_index s)\<rparr> in
                       case map_of (objects s1) t of
                         None \<Rightarrow> (Inl (KeyError t), s1)
                       | Some os \<Rightarrow>
                           (Inr d, s1\<lparr>objects := AList.update t (os @ [d]) (objects s1)\<rparr>))
                    else (Inr d, s))))"

section \<open>The assembly session\<close>

text \<open>
  What \<^verbatim>\<open>Dataset\<close> reads of its collaborators: the four record classes, the
  form-splitting and form-cleaning methods and the optional tokenizer of
  \<^verbatim>\<open>self.dataset\<close>, the gloss table \<^verbatim>\<open>self.dataset.concepticon.cached_glosses\<close>,
  and \<^verbatim>\<open>Analysis\<close> and \<^verbatim>\<open>analyze\<close> of \<^verbatim>\<open>pylexibank.transcription\<close>.
  \<^verbatim>\<open>analyze\<close> works on the analysis object it is given, so it returns the object's new
  value also when it raises. Of its four results the session reads the second, a list of
  sound objects of which only the type is inspected, and the third, a list of sound-class
  codes.
\<close>

datatype sound = UnknownSound | OtherSound

record 'an dataset =
  lexeme_class :: cls
  language_class :: cls
  concept_class :: cls
  cognate_class :: cls
  split_forms :: "dict \<Rightarrow> pyval \<Rightarrow> string list"
  clean_form :: "dict \<Rightarrow> string \<Rightarrow> string"
  tokenizer :: "(dict \<Rightarrow> string \<Rightarrow> string list) option"
  cached_glosses :: "(int \<times> pyval) list"
  Analysis :: 'an
  analyze :: "pyval \<Rightarrow> 'an \<Rightarrow> (error + sound list \<times> string list) \<times> 'an"

text \<open>
  \<^verbatim>\<open>__init__\<close>: both counters at zero, and an empty list and an empty index for
  the table of each class, taken in the order lexeme, language, concept, cognate.
\<close>

definition dataset_init :: "'an dataset \<Rightarrow> 'an state" where
  "dataset_init ds =
     (let ts = map cldf_table [lexeme_class ds, language_class ds, concept_class ds, cognate_class ds]
      in \<lparr>count = 0, cognate_count = 0,
          objects = fold (\<lambda>t. AList.update t []) ts [],
          obj_index = fold (\<lambda>t. AList.update t {}) ts [],
          tr_analyses = [], tr_bad_words = [], tr_invalid_words = [],
          debug_log = [], printed = [], written = []\<rparr>)"

subsection \<open>Identifier generator\<close>

definition lexeme_id :: "'an state \<Rightarrow> string \<times> 'an state" where
  "lexeme_id s = (let s' = s\<lparr>count := count s + 1\<rparr> in (format0 (PInt (count s')), s'))"

definition cognate_id :: "'an state \<Rightarrow> int \<times> 'an state" where
  "cognate_id s = (let s' = s\<lparr>cognate_count := cognate_count s + 1\<rparr> in (cognate_count s', s'))"

subsection \<open>Finalization\<close>

text \<open>
  \<^verbatim>\<open>set(obj[fk] for obj in self.objects['FormTable'])\<close>: a record without the key
  raises \<^verbatim>\<open>KeyError\<close>, a list cannot be hashed.
\<close>

fun refs_of :: "string \<Rightarrow> dict list \<Rightarrow> error + pyval set" where
  "refs_of fk [] = Inr {}"
| "refs_of fk (obj # objs) =
     (case map_of obj fk of
        None \<Rightarrow> Inl (KeyError fk)
      | Some (PList xs) \<Rightarrow> Inl (TypeError ''unhashable type'')
      | Some v \<Rightarrow>
          (case refs_of fk objs of
             Inl e \<Rightarrow> Inl e
           | Inr refs \<Rightarrow> Inr (insert v refs)))"

text \<open>\<^verbatim>\<open>[obj for obj in self.objects[table] if obj['ID'] in refs]\<close>\<close>

fun filter_refs :: "pyval set \<Rightarrow> dict list \<Rightarrow> error + dict list" where
  "filter_refs refs [] = Inr []"
| "filter_refs refs (obj # objs) =
     (case map_of obj ''ID'' of
        None \<Rightarrow> Inl (KeyError ''ID'')
      | Some (PList xs) \<Rightarrow> Inl (TypeError ''unhashable type'')
      | Some v \<Rightarrow>
          (case filter_refs refs objs of
             Inl e \<Rightarrow> Inl e
           | Inr keep \<Rightarrow> Inr (if v \<in> refs then obj # keep else keep)))"

text \<open>One round of the pruning loop of \<^verbatim>\<open>__exit__\<close>, for a foreign key and its table.\<close>

definition prune :: "string \<Rightarrow> string \<Rightarrow> 'an state \<Rightarrow> (error + unit) \<times> 'an state" where
  "prune fk table s =
     (case map_of (objects s) ''FormTable'' of
        None \<Rightarrow> (Inl (KeyError ''FormTable''), s)
      | Some forms \<Rightarrow>
          (case refs_of fk forms of
             Inl e \<Rightarrow> (Inl e, s)
           | Inr refs \<Rightarrow>
               (case map_of (objects s) table of
                  None \<Rightarrow> (Inl (KeyError table), s)
                | Some os \<Rightarrow>
                    (case filter_refs refs os of
                       Inl e \<Rightarrow> (Inl e, s)
                     | Inr keep \<Rightarrow> (Inr (), s\<lparr>objects := AList.update table keep (objects s)\<rparr>)))))"

text \<open>
  \<^verbatim>\<open>write\<close> hands the table map to the writer of the output format; the metadata it
  adds belong to the writer.
\<close>

definition dataset_write :: "'an state \<Rightarrow> (error + unit) \<times> 'an state" where
  "dataset_write s = (Inr (), s\<lparr>written := written s @ [objects s]\<rparr>)"

definition dataset_exit :: "'an state \<Rightarrow> (error + unit) \<times> 'an state" where
  "dataset_exit s =
     (let s0 = s\<lparr>objects :=
                  fold (\<lambda>t. setdefault t [])
                    [''FormTable'', ''CognateTable'', ''LanguageTable'', ''ParameterTable'']
                    (objects s)\<rparr>
      in case prune ''Parameter_ID'' ''ParameterTable'' s0 of
           (Inl e, s1) \<Rightarrow> (Inl e, s1)
         | (Inr u, s1) \<Rightarrow>
             (case prune ''Language_ID'' ''LanguageTable'' s1 of
                (Inl e, s2) \<Rightarrow> (Inl e, s2)
              | (Inr u, s2) \<Rightarrow> dataset_write s2))"

subsection \<open>Lexemes\<close>

text \<open>\<^verbatim>\<open>str.strip()\<close>: the white space of the code points below 256.\<close>

definition py_isspace :: "char \<Rightarrow> bool" where
  "py_isspace c =
     (let n = (of_char c :: nat) in
      (9 \<le> n \<and> n \<le> 13) \<or> (28 \<le> n \<and> n \<le> 32) \<or> n = 133 \<or> n = 160)"

definition strip :: "string \<Rightarrow> string" where
  "strip s = rev (dropWhile py_isspace (rev (dropWhile py_isspace s)))"

definition tokenize :: "'an dataset \<Rightarrow> dict \<Rightarrow> string \<Rightarrow> string list option" where
  "tokenize ds item string =
     (case tokenizer ds of None \<Rightarrow> None | Some f \<Rightarrow> Some (f item string))"

text \<open>
  Lines 104 to 120 of \<^verbatim>\<open>add_lexemes\<close>: the segment analysis of the record that has
  just been inserted, given its keyword dict \<^verbatim>\<open>kw_\<close>. The analysis object of the
  language is entered into \<^verbatim>\<open>tr_analyses\<close> before the \<^verbatim>\<open>try\<close>.
\<close>

definition add_lexemes_analysis ::
  "'an dataset \<Rightarrow> dict \<Rightarrow> 'an state \<Rightarrow> (error + unit) \<times> 'an state" where
  "add_lexemes_analysis ds kw s =
     (case getitem kw ''Segments'' of
        Inl e \<Rightarrow> (Inl e, s)
      | Inr segments \<Rightarrow>
          if truthy segments then
            (case getitem kw ''Language_ID'' of
               Inl e \<Rightarrow> (Inl e, s)
             | Inr lid \<Rightarrow>
                 if \<not> hashable lid then (Inl (TypeError ''unhashable type''), s)
                 else
                   (let s1 = s\<lparr>tr_analyses := setdefault lid (Analysis ds) (tr_analyses s)\<rparr>;
                        analysis = (case map_of (tr_analyses s1) lid of
                                      None \<Rightarrow> Analysis ds | Some a \<Rightarrow> a);
                        (r, analysis') = analyze ds segments analysis;
                        s2 = s1\<lparr>tr_analyses := AList.update lid analysis' (tr_analyses s1)\<rparr>
                    in case r of
                         Inr (bipa, sc) \<Rightarrow>
                           if UnknownSound \<in> set bipa \<or> ''?'' \<in> set sc
                           then (Inr (), s2\<lparr>tr_bad_words := tr_bad_words s2 @ [kw]\<rparr>)
                           else (Inr (), s2)
                       | Inl e \<Rightarrow>
                           if is_ValueError e then
                             (Inr (), s2\<lparr>tr_invalid_words := tr_invalid_words s2 @ [kw]\<rparr>)
                           else if is_KeyError e \<or> is_AttributeError e then
                             (case getitem kw ''Form'' of
                                Inl e' \<Rightarrow> (Inl e', s2)
                              | Inr f \<Rightarrow> (Inl e, s2\<lparr>printed := printed s2 @ [(f, kw)]\<rparr>))
                           else (Inl e, s2)))
          else (Inr (), s))"

text \<open>\<^verbatim>\<open>self.dataset.log.debug(msg)\<close>\<close>

definition log_debug :: "string \<Rightarrow> 'an state \<Rightarrow> 'an state" where
  "log_debug msg s = s\<lparr>debug_log := debug_log s @ [msg]\<rparr>"

text \<open>
  Lines 91 to 98 of \<^verbatim>\<open>add_lexemes\<close>, for a candidate \<^verbatim>\<open>form\<close> that is not empty, where
  \<^verbatim>\<open>v\<close> is \<^verbatim>\<open>kw['Value']\<close>: the two debug messages and the cleaned, stripped form.
\<close>

definition add_lexemes_clean ::
  "'an dataset \<Rightarrow> dict \<Rightarrow> pyval \<Rightarrow> string \<Rightarrow> 'an state \<Rightarrow> string \<times> 'an state" where
  "add_lexemes_clean ds kw v form s =
     (let s1 = (if PStr form \<noteq> v
                then log_debug (''iter_forms split: '' @ [CHR 0x22] @ format0 v @ [CHR 0x22]
                                @ '' -> '' @ [CHR 0x22] @ form @ [CHR 0x22]) s
                else s);
          cleaned = clean_form ds kw form;
          s2 = (if cleaned \<noteq> form
                then log_debug (''clean_form changed: '' @ [CHR 0x22] @ form @ [CHR 0x22]
                                @ '' -> '' @ [CHR 0x22] @ cleaned @ [CHR 0x22]) s1
                else s1)
      in (strip cleaned, s2))"

text \<open>
  The body of the loop of \<^verbatim>\<open>add_lexemes\<close> for one candidate \<^verbatim>\<open>form\<close>. The result is
  the record appended to \<^verbatim>\<open>lexemes\<close>, if any.
\<close>

definition add_lexemes_form ::
  "'an dataset \<Rightarrow> dict \<Rightarrow> pyval \<Rightarrow> string \<Rightarrow> 'an state \<Rightarrow> (error + dict option) \<times> 'an state" where
  "add_lexemes_form ds kw v form s =
     (if form \<noteq> [] then
        (let (form', s2) = add_lexemes_clean ds kw v form s
         in if form' \<noteq> [] then
              (let segments = (case tokenize ds kw form' of
                                 None \<Rightarrow> [] | Some ts \<Rightarrow> ts);
                   kw1 = setdefault ''Segments'' (PList segments) kw;
                   (i, s3) = lexeme_id s2;
                   kw2 = AList.update ''Form'' (PStr form') (AList.update ''ID'' (PStr i) kw1)
               in case add_object s3 (lexeme_class ds) kw2 of
                    (Inl e, s4) \<Rightarrow> (Inl e, s4)
                  | (Inr d, s4) \<Rightarrow>
                      (case add_lexemes_analysis ds kw2 s4 of
                         (Inl e, s5) \<Rightarrow> (Inl e, s5)
                       | (Inr u, s5) \<Rightarrow> (Inr (Some d), s5)))
            else (Inr None, s2))
      else (Inr None, s))"

fun add_lexemes_loop ::
  "'an dataset \<Rightarrow> dict \<Rightarrow> pyval \<Rightarrow> string list \<Rightarrow> dict list \<Rightarrow> 'an state
     \<Rightarrow> (error + dict list) \<times> 'an state" where
  "add_lexemes_loop ds kw v [] lexemes s = (Inr lexemes, s)"
| "add_lexemes_loop ds kw v (form # forms) lexemes s =
     (case add_lexemes_form ds kw v form s of
        (Inl e, s') \<Rightarrow> (Inl e, s')
      | (Inr None, s') \<Rightarrow> add_lexemes_loop ds kw v forms lexemes s'
      | (Inr (Some d), s') \<Rightarrow> add_lexemes_loop ds kw v forms (lexemes @ [d]) s')"

definition add_lexemes :: "'an dataset \<Rightarrow> 'an state \<Rightarrow> dict \<Rightarrow> (error + dict list) \<times> 'an state" where
  "add_lexemes ds s kw =
     (case getitem kw ''Value'' of
        Inl e \<Rightarrow> (Inl e, s)
      | Inr v \<Rightarrow> add_lexemes_loop ds kw v (split_forms ds kw v) [] s)"

subsection \<open>Concepts\<close>

text \<open>
  \<^verbatim>\<open>int(x)\<close> of Python 3: an integer is itself; a string may carry white space at
  both ends and a sign, and is a run of decimal digits in which single underscores may
  stand between two digits; anything else raises. The white space that \<^verbatim>\<open>int\<close> skips
  is narrower than that of \<^verbatim>\<open>str.strip\<close>: the separators 28 to 31 are not skipped.
\<close>

definition int_isspace :: "char \<Rightarrow> bool" where
  "int_isspace c =
     (let n = (of_char c :: nat) in (9 \<le> n \<and> n \<le> 13) \<or> n = 32 \<or> n = 133 \<or> n = 160)"

definition int_strip :: "string \<Rightarrow> string" where
  "int_strip s = rev (dropWhile int_isspace (rev (dropWhile int_isspace s)))"

definition is_digit :: "char \<Rightarrow> bool" where
  "is_digit c = (let n = (of_char c :: nat) in 48 \<le> n \<and> n \<le> 57)"

fun parse_digits :: "bool \<Rightarrow> nat \<Rightarrow> string \<Rightarrow> nat option" where
  "parse_digits prev acc [] = (if prev then Some acc else None)"
| "parse_digits prev acc (c # cs) =
     (if is_digit c then parse_digits True (10 * acc + (of_char c - 48)) cs
      else if c = CHR ''_'' \<and> prev then parse_digits False acc cs
      else None)"

definition int_of_str :: "string \<Rightarrow> error + int" where
  "int_of_str s =
     (let t = int_strip s;
          (neg, body) = (case t of
                           c # cs \<Rightarrow> if c = CHR ''-'' then (True, cs)
                                     else if c = CHR ''+'' then (False, cs) else (False, t)
                         | [] \<Rightarrow> (False, t))
      in case parse_digits False 0 body of
           None \<Rightarrow> Inl (ValueError (''invalid literal for int() with base 10: '' @ repr_str s))
         | Some n \<Rightarrow> Inr (if neg then - int n else int n))"

fun py_int :: "pyval \<Rightarrow> error + int" where
  "py_int (PInt i) = Inr i"
| "py_int (PStr s) = int_of_str s"
| "py_int PNone = Inl (TypeError ''int() argument must be a string or a number'')"
| "py_int (PList xs) = Inl (TypeError ''int() argument must be a string or a number'')"

text \<open>
  \<^verbatim>\<open>add_concept\<close>. The default of \<^verbatim>\<open>setdefault\<close> is an argument, so the gloss is
  looked up, by subscript, whenever \<^verbatim>\<open>Concepticon_ID\<close> is true, also when a gloss is
  supplied. \<^verbatim>\<open>cached_glosses\<close> is a dict from the integer identifiers of the catalog to
  their glosses.
\<close>

definition add_concept :: "'an dataset \<Rightarrow> 'an state \<Rightarrow> dict \<Rightarrow> (error + dict) \<times> 'an state" where
  "add_concept ds s kw =
     (if truthy (dict_get kw ''Concepticon_ID'') then
        (case getitem kw ''Concepticon_ID'' of
           Inl e \<Rightarrow> (Inl e, s)
         | Inr cid \<Rightarrow>
             (case py_int cid of
                Inl e \<Rightarrow> (Inl e, s)
              | Inr n \<Rightarrow>
                  (case map_of (cached_glosses ds) n of
                     None \<Rightarrow> (Inl (KeyError (str_int n)), s)
                   | Some gloss \<Rightarrow>
                       add_object s (concept_class ds)
                         (setdefault ''Concepticon_Gloss'' gloss kw))))
      else add_object s (concept_class ds) kw)"

section \<open>Sessions of calls\<close>

text \<open>
  A session calls the two identifier generators in any order. \<open>run_id_calls\<close> makes
  the calls of a list one after the other and collects what they return;
  \<open>results_of c cs rs\<close> are the values returned to the calls of generator \<open>c\<close>.
\<close>

datatype id_call = LexemeId | CognateId

fun run_id_calls :: "'an state \<Rightarrow> id_call list \<Rightarrow> pyval list \<times> 'an state" where
  "run_id_calls s [] = ([], s)"
| "run_id_calls s (LexemeId # cs) =
     (let (r, s1) = lexeme_id s; (rs, s2) = run_id_calls s1 cs in (PStr r # rs, s2))"
| "run_id_calls s (CognateId # cs) =
     (let (r, s1) = cognate_id s; (rs, s2) = run_id_calls s1 cs in (PInt r # rs, s2))"

definition results_of :: "id_call \<Rightarrow> id_call list \<Rightarrow> pyval list \<Rightarrow> pyval list" where
  "results_of c cs rs = map snd (filter (\<lambda>p. fst p = c) (zip cs rs))"

definition calls_of :: "id_call \<Rightarrow> id_call list \<Rightarrow> int" where
  "calls_of c cs = int (length (filter (\<lambda>x. x = c) cs))"

text \<open>The number a run of decimal digits denotes, read from the left.\<close>

definition digits_value :: "nat \<Rightarrow> string \<Rightarrow> nat" where
  "digits_value acc cs = foldl (\<lambda>a c. 10 * a + (of_char c - 48)) acc cs"

text \<open>Fixtures: a class without validators, which keeps the keyword dict as it is.\<close>

definition plain_class :: "string \<Rightarrow> cls" where
  "plain_class t = \<lparr>cldf_table = t, asdict_new = Inr\<rparr>"

text \<open>
  A dataset for the examples: plain classes for the four standard tables, a splitter
  at semicolons, no cleaning, a tokenizer that makes every character a segment, one gloss
  in the catalog, and an analyzer over a unit state that calls \<^verbatim>\<open>x\<close> an unknown sound,
  rejects an empty segment with \<^verbatim>\<open>ValueError\<close> and misses \<^verbatim>\<open>#\<close> with \<^verbatim>\<open>KeyError\<close>.
\<close>

fun split_on :: "char \<Rightarrow> string \<Rightarrow> string list" where
  "split_on c [] = [[]]"
| "split_on c (x # xs) =
     (if x = c then [] # split_on c xs
      else (case split_on c xs of y # ys \<Rightarrow> (x # y) # ys | [] \<Rightarrow> [[x]]))"

definition example_analyze :: "pyval \<Rightarrow> unit \<Rightarrow> (error + sound list \<times> string list) \<times> unit" where
  "example_analyze segments a =
     (case segments of
        PList xs \<Rightarrow>
          if [] \<in> set xs then (Inl (ValueError ''empty segment''), a)
          else if ''#'' \<in> set xs then (Inl (KeyError ''#''), a)
          else (Inr (map (\<lambda>x. if x = ''x'' then UnknownSound else OtherSound) xs,
                     map (\<lambda>x. if x = ''x'' then ''?'' else ''C'') xs), a)
      | _ \<Rightarrow> (Inl (TypeError ''segments''), a))"

definition example_dataset :: "unit dataset" where
  "example_dataset =
     \<lparr>lexeme_class = plain_class ''FormTable'',
      language_class = plain_class ''LanguageTable'',
      concept_class = plain_class ''ParameterTable'',
      cognate_class = plain_class ''CognateTable'',
      split_forms = (\<lambda>kw v. case v of PStr s \<Rightarrow> split_on CHR '';'' s | _ \<Rightarrow> []),
      clean_form = (\<lambda>kw form. form),
      tokenizer = Some (\<lambda>kw form. map (\<lambda>c. [c]) form),
      cached_glosses = [(1277, PStr ''HAND'')],
      Analysis = (),
      analyze = example_analyze\<rparr>"

section \<open>Observing the store\<close>

text \<open>
  \<open>records_with_id s t i\<close> are the records of table \<open>t\<close> stored under identifier
  \<open>i\<close>, \<open>in_index s t i\<close> says that \<open>i\<close> is in the deduplication index of the table,
  and \<open>ids_indexed s t\<close> that the identifier of every stored record of the table is in
  its index. \<open>add_objects\<close> makes a sequence of insert calls, whatever each returns.
\<close>

definition records_with_id :: "'an state \<Rightarrow> string \<Rightarrow> pyval \<Rightarrow> dict list" where
  "records_with_id s t i =
     (case map_of (objects s) t of
        None \<Rightarrow> []
      | Some os \<Rightarrow> filter (\<lambda>d. map_of d ''ID'' = Some i) os)"

definition in_index :: "'an state \<Rightarrow> string \<Rightarrow> pyval \<Rightarrow> bool" where
  "in_index s t i = (case map_of (obj_index s) t of None \<Rightarrow> False | Some idx \<Rightarrow> i \<in> idx)"

definition ids_indexed :: "'an state \<Rightarrow> string \<Rightarrow> bool" where
  "ids_indexed s t =
     (case map_of (objects s) t of
        None \<Rightarrow> True
      | Some os \<Rightarrow> list_all (\<lambda>d. case map_of d ''ID'' of None \<Rightarrow> True | Some i \<Rightarrow> in_index s t i) os)"

fun add_objects :: "'an state \<Rightarrow> (cls \<times> dict) list \<Rightarrow> (error + dict) list \<times> 'an state" where
  "add_objects s [] = ([], s)"
| "add_objects s ((c, kw) # calls) =
     (let (r, s1) = add_object s c kw; (rs, s2) = add_objects s1 calls in (r # rs, s2))"

text \<open>Records for the examples.\<close>

definition english :: dict where
  "english = [(''ID'', PStr ''L1''), (''Name'', PStr ''English'')]"

definition english_again :: dict where
  "english_again = [(''ID'', PStr ''L1''), (''Name'', PStr ''Anglais'')]"

definition hand :: dict where
  "hand = [(''ID'', PInt 1), (''Name'', PStr ''hand'')]"

definition newline_language :: dict where
  "newline_language = [(''ID'', PStr [CHR ''L'', CHR ''1'', CHR 0x0A]), (''Name'', PStr ''English'')]"

definition newline_lexeme :: dict where
  "newline_lexeme =
     [(''ID'', PStr ''1''), (''Language_ID'', PStr [CHR ''L'', CHR ''1'', CHR 0x0A]),
      (''Parameter_ID'', PStr ''hand''), (''Value'', PStr ''hand'')]"

text \<open>
  \<open>table s t\<close> is the list of records of table \<open>t\<close> (empty when the table has no
  entry), and \<open>referenced fk forms obj\<close> says that the identifier of \<open>obj\<close> is the value
  of the foreign key \<open>fk\<close> of some record of \<open>forms\<close>.
\<close>

definition table :: "'an state \<Rightarrow> string \<Rightarrow> dict list" where
  "table s t = (case map_of (objects s) t of None \<Rightarrow> [] | Some os \<Rightarrow> os)"

definition referenced :: "string \<Rightarrow> dict list \<Rightarrow> dict \<Rightarrow> bool" where
  "referenced fk forms obj =
     (case map_of obj ''ID'' of
        None \<Rightarrow> False
      | Some v \<Rightarrow> list_ex (\<lambda>f. map_of f fk = Some v) forms)"

definition standard_tables :: "string list" where
  "standard_tables = [''FormTable'', ''CognateTable'', ''LanguageTable'', ''ParameterTable'']"

definition german :: dict where
  "german = [(''ID'', PStr ''L2''), (''Name'', PStr ''German'')]"

definition hand_lexeme :: dict where
  "hand_lexeme =
     [(''ID'', PStr ''1''), (''Language_ID'', PStr ''L1''), (''Parameter_ID'', PInt 1),
      (''Value'', PStr ''hand''), (''Form'', PStr ''hand'')]"

definition example_store :: "unit state" where
  "example_store =
     snd (add_objects (dataset_init example_dataset)
       [(language_class example_dataset, english), (language_class example_dataset, german),
        (concept_class example_dataset, hand), (lexeme_class example_dataset, hand_lexeme)])"

definition foot :: dict where
  "foot = [(''ID'', PInt 2), (''Name'', PStr ''foot''), (''Concepticon_ID'', PInt 9999)]"

definition hand_concept :: dict where
  "hand_concept = [(''ID'', PInt 1), (''Name'', PStr ''hand''), (''Concepticon_ID'', PStr ''1277'')]"

definition axe :: dict where
  "axe = [(''Language_ID'', PStr ''L1''), (''Parameter_ID'', PStr ''axe''), (''Value'', PStr ''axe'')]"

definition axe_kw :: dict where
  "axe_kw = [(''Language_ID'', PStr ''L1''), (''Parameter_ID'', PStr ''axe''), (''Value'', PStr ''axe''),
             (''Segments'', PList [''a'', ''x'', ''e'']), (''ID'', PStr ''1''), (''Form'', PStr ''axe'')]"


text \<open>
  \<open>surviving_forms\<close> are the candidates that are not empty and whose cleaned and
  stripped form is not empty, as cleaned and stripped. \<open>fresh_ids\<close> says that no lexeme
  identifier above the counter is in the index of the form table yet, and
  \<open>keeps_id_and_form\<close> that a class hands the fields \<^verbatim>\<open>ID\<close> and \<^verbatim>\<open>Form\<close> through as given.
\<close>

definition surviving_forms :: "'an dataset \<Rightarrow> dict \<Rightarrow> string list \<Rightarrow> string list" where
  "surviving_forms ds kw forms =
     filter (\<lambda>f. f \<noteq> []) (map (\<lambda>f. strip (clean_form ds kw f)) (filter (\<lambda>f. f \<noteq> []) forms))"

definition fresh_ids :: "'an dataset \<Rightarrow> 'an state \<Rightarrow> bool" where
  "fresh_ids ds s =
     (\<forall>k. count s < k \<longrightarrow> \<not> in_index s (cldf_table (lexeme_class ds)) (PStr (str_int k)))"

definition go_walk :: dict where
  "go_walk = [(''Language_ID'', PStr ''L1''), (''Parameter_ID'', PStr ''go''),
              (''Value'', PStr ''to go; to walk'')]"

definition go_walk_lexemes :: "dict list" where
  "go_walk_lexemes =
     [[(''Language_ID'', PStr ''L1''), (''Parameter_ID'', PStr ''go''),
       (''Value'', PStr ''to go; to walk''),
       (''Segments'', PList [''t'', ''o'', '' '', ''g'', ''o'']),
       (''ID'', PStr ''1''), (''Form'', PStr ''to go'')],
      [(''Language_ID'', PStr ''L1''), (''Parameter_ID'', PStr ''go''),
       (''Value'', PStr ''to go; to walk''),
       (''Segments'', PList [''t'', ''o'', '' '', ''w'', ''a'', ''l'', ''k'']),
       (''ID'', PStr ''2''), (''Form'', PStr ''to walk'')]]"

definition keeps_id_and_form :: "cls \<Rightarrow> bool" where
  "keeps_id_and_form c =
     (\<forall>kw d. asdict_new c kw = Inr d \<longrightarrow>
        map_of d ''ID'' = map_of kw ''ID'' \<and> map_of d ''Form'' = map_of kw ''Form'')"

section \<open>Decimal strings\<close>

lemma digit_char_is_digit: "n < 10 \<Longrightarrow> is_digit (digit_char n) \<and> of_char (digit_char n) - 48 = n"
proof -
  assume "n < 10"
  then have "n \<in> {0,1,2,3,4,5,6,7,8,9}" by auto
  then show ?thesis by (auto simp: digit_char_def is_digit_def)
qed

lemma str_nat_digits: "c \<in> set (str_nat n) \<Longrightarrow> is_digit c"
proof (induction n rule: str_nat.induct)
  case (1 n)
  then show ?case
    by (subst (asm) (2) str_nat.simps) (auto simp: digit_char_is_digit split: if_splits)
qed

lemma str_nat_nonempty: "str_nat n \<noteq> []"
  by (subst str_nat.simps) simp

lemma parse_digits_all:
  "\<forall>c \<in> set cs. is_digit c \<Longrightarrow> cs \<noteq> [] \<Longrightarrow> parse_digits prev acc cs = Some (digits_value acc cs)"
proof (induction cs arbitrary: prev acc)
  case Nil
  then show ?case by simp
next
  case (Cons c cs)
  show ?case
  proof (cases cs)
    case Nil
    with Cons.prems show ?thesis by (simp add: digits_value_def)
  next
    case (Cons d ds)
    with Cons.prems Cons.IH[of True "10 * acc + (of_char c - 48)"] show ?thesis
      by (simp add: digits_value_def)
  qed
qed

lemma digits_value_str_nat: "digits_value 0 (str_nat n) = n"
proof (induction n rule: str_nat.induct)
  case (1 n)
  show ?case
  proof (cases "n < 10")
    case True
    then show ?thesis by (subst str_nat.simps) (simp add: digits_value_def digit_char_is_digit)
  next
    case False
    with 1 have "digits_value 0 (str_nat (n div 10)) = n div 10" by simp
    with False show ?thesis
      by (subst str_nat.simps) (simp add: digits_value_def digit_char_is_digit)
  qed
qed

lemma is_digit_not_space: "is_digit c \<Longrightarrow> \<not> int_isspace c"
  by (auto simp: is_digit_def int_isspace_def Let_def)

lemma strip_id: "s \<noteq> [] \<Longrightarrow> \<not> int_isspace (hd s) \<Longrightarrow> \<not> int_isspace (last s) \<Longrightarrow> int_strip s = s"
proof -
  assume a: "s \<noteq> []" "\<not> int_isspace (hd s)" "\<not> int_isspace (last s)"
  have 1: "dropWhile int_isspace s = s" using a by (simp add: dropWhile_eq_self_iff)
  have 2: "dropWhile int_isspace (rev s) = rev s" using a by (simp add: dropWhile_eq_self_iff hd_rev)
  show ?thesis by (simp add: int_strip_def 1 2)
qed

text \<open>\<^verbatim>\<open>int(str(k)) == k\<close>: the decimal string of an integer denotes that integer.\<close>

lemma py_int_str_int: "py_int (PStr (str_int k)) = Inr k"
proof (cases "k < 0")
  case False
  let ?s = "str_nat (nat k)"
  have ne: "?s \<noteq> []" by (rule str_nat_nonempty)
  have dig: "\<forall>c \<in> set ?s. is_digit c" by (simp add: str_nat_digits)
  have "int_strip ?s = ?s"
    using ne dig by (intro strip_id) (auto intro!: is_digit_not_space)
  moreover have "hd ?s \<noteq> CHR ''-''" "hd ?s \<noteq> CHR ''+''"
    using ne dig by (auto simp: is_digit_def dest!: hd_in_set)
  moreover have "parse_digits False 0 ?s = Some (nat k)"
    using ne dig by (simp add: parse_digits_all digits_value_str_nat)
  ultimately show ?thesis using False ne
    by (cases ?s) (auto simp: int_of_str_def str_int_def Let_def simp del: parse_digits.simps)
next
  case True
  let ?s = "str_nat (nat (- k))"
  have ne: "?s \<noteq> []" by (rule str_nat_nonempty)
  have dig: "\<forall>c \<in> set ?s. is_digit c" by (simp add: str_nat_digits)
  have "\<not> int_isspace (CHR ''-'')" by (simp add: int_isspace_def)
  then have "int_strip (CHR ''-'' # ?s) = CHR ''-'' # ?s"
    using ne dig by (intro strip_id) (auto intro!: is_digit_not_space)
  moreover have "parse_digits False 0 ?s = Some (nat (- k))"
    using ne dig by (simp add: parse_digits_all digits_value_str_nat)
  ultimately show ?thesis using True
    by (simp add: int_of_str_def str_int_def Let_def del: parse_digits.simps)
qed

lemma str_int_inj: "str_int a = str_int b \<Longrightarrow> a = b"
proof -
  assume "str_int a = str_int b"
  then have "py_int (PStr (str_int a)) = py_int (PStr (str_int b))" by simp
  then show ?thesis by (simp only: py_int_str_int sum.inject)
qed

section \<open>Identifier generator\<close>

lemma upto_shift: "[a + 1 .. a + int (Suc n)] = (a + 1) # [(a + 1) + 1 .. (a + 1) + int n]"
  by (simp add: upto_rec1 add.commute add.left_commute)

lemma run_id_calls_results:
  "run_id_calls s cs = (rs, s') \<Longrightarrow>
     length rs = length cs \<and>
     results_of LexemeId cs rs =
       map (\<lambda>k. PStr (str_int k)) [count s + 1 .. count s + calls_of LexemeId cs] \<and>
     results_of CognateId cs rs =
       map PInt [cognate_count s + 1 .. cognate_count s + calls_of CognateId cs] \<and>
     count s' = count s + calls_of LexemeId cs \<and>
     cognate_count s' = cognate_count s + calls_of CognateId cs"
proof (induction cs arbitrary: s rs s')
  case Nil
  then show ?case by (simp add: results_of_def calls_of_def)
next
  case (Cons c cs)
  show ?case
  proof (cases c)
    case LexemeId
    obtain r s1 where l: "lexeme_id s = (r, s1)" by force
    obtain rs1 s2 where r: "run_id_calls s1 cs = (rs1, s2)" by force
    from l have s1: "r = str_int (count s + 1)" "count s1 = count s + 1" "cognate_count s1 = cognate_count s"
      by (auto simp: lexeme_id_def Let_def)
    from Cons.prems LexemeId l r have eq: "rs = PStr r # rs1" "s' = s2" by auto
    from Cons.IH[OF r] s1 eq LexemeId show ?thesis
      by (simp add: results_of_def calls_of_def upto_shift del: of_nat_Suc)
  next
    case CognateId
    obtain r s1 where l: "cognate_id s = (r, s1)" by force
    obtain rs1 s2 where r: "run_id_calls s1 cs = (rs1, s2)" by force
    from l have s1: "r = cognate_count s + 1" "count s1 = count s" "cognate_count s1 = cognate_count s + 1"
      by (auto simp: cognate_id_def Let_def)
    from Cons.prems CognateId l r have eq: "rs = PInt r # rs1" "s' = s2" by auto
    from Cons.IH[OF r] s1 eq CognateId show ?thesis
      by (simp add: results_of_def calls_of_def upto_shift del: of_nat_Suc)
  qed
qed

lemma dataset_init_counters: "count (dataset_init ds) = 0 \<and> cognate_count (dataset_init ds) = 0"
  by (simp add: dataset_init_def Let_def)

text \<open>
  C6. In a session started by \<^verbatim>\<open>__init__\<close>, whatever the order in which the two
  generators are called, the values returned by \<^verbatim>\<open>lexeme_id\<close> are, in call order, the
  decimal strings of 1, 2, ..., n, and those returned by \<^verbatim>\<open>cognate_id\<close> the integers
  1, 2, ..., m, where n and m count the calls of each generator: the k-th call returns k,
  each counter is untouched by calls of the other, the strings denote strictly increasing
  numbers (\<^verbatim>\<open>int\<close> reads each back as its position), and no value is returned twice.
\<close>

theorem id_generators_sequential:
  "results_of LexemeId cs (fst (run_id_calls (dataset_init ds) cs)) =
     map (\<lambda>k. PStr (str_int k)) [1 .. calls_of LexemeId cs] \<and>
   results_of CognateId cs (fst (run_id_calls (dataset_init ds) cs)) =
     map PInt [1 .. calls_of CognateId cs] \<and>
   map py_int (results_of LexemeId cs (fst (run_id_calls (dataset_init ds) cs))) =
     map Inr [1 .. calls_of LexemeId cs] \<and>
   distinct (results_of LexemeId cs (fst (run_id_calls (dataset_init ds) cs))) \<and>
   distinct (results_of CognateId cs (fst (run_id_calls (dataset_init ds) cs)))"
proof -
  obtain rs s' where run: "run_id_calls (dataset_init ds) cs = (rs, s')" by force
  from run_id_calls_results[OF run]
  have l: "results_of LexemeId cs rs = map (\<lambda>k. PStr (str_int k)) [1 .. calls_of LexemeId cs]"
    and c: "results_of CognateId cs rs = map PInt [1 .. calls_of CognateId cs]"
    by (simp_all add: dataset_init_counters)
  have "inj_on (\<lambda>k. PStr (str_int k)) A" for A
    by (auto simp: inj_on_def dest: str_int_inj)
  then have dl: "distinct (results_of LexemeId cs rs)"
    by (simp add: l distinct_map)
  have dc: "distinct (results_of CognateId cs rs)"
    by (simp add: c distinct_map inj_on_def)
  have "map py_int (results_of LexemeId cs rs) = map Inr [1 .. calls_of LexemeId cs]"
    by (simp add: l py_int_str_int del: py_int.simps)
  with l c dl dc run show ?thesis by simp
qed

theorem id_generators_sequential_witness:
  "results_of LexemeId [LexemeId, CognateId, LexemeId]
     (fst (run_id_calls (dataset_init example_dataset) [LexemeId, CognateId, LexemeId])) =
     [PStr ''1'', PStr ''2''] \<and>
   results_of CognateId [LexemeId, CognateId, LexemeId]
     (fst (run_id_calls (dataset_init example_dataset) [LexemeId, CognateId, LexemeId])) =
     [PInt 1]"
  using id_generators_sequential[of "[LexemeId, CognateId, LexemeId]" example_dataset]
  by (simp add: calls_of_def str_int_def str_nat.simps digit_char_def upto_rec1)

section \<open>Insertion\<close>

lemma add_object_duplicate:
  "validate c kw = Inr d \<Longrightarrow> map_of d ''ID'' = Some i \<Longrightarrow> in_index s (cldf_table c) i
     \<Longrightarrow> add_object s c kw = (Inr d, s)"
  by (auto simp: add_object_def in_index_def split: option.splits)

lemma add_object_error_unchanged:
  "validate c kw = Inl e \<Longrightarrow> add_object s c kw = (Inl e, s)"
  by (simp add: add_object_def)

lemma add_object_Inr_validate:
  "add_object s c kw = (Inr d, s') \<Longrightarrow> validate c kw = Inr d"
  by (auto simp: add_object_def Let_def split: sum.splits option.splits if_splits)

lemma add_object_cases:
  assumes "add_object s c kw = (r, s')"
  obtains (same) "s' = s"
  | (no_id) d os where "r = Inr d" "validate c kw = Inr d" "map_of d ''ID'' = None"
      "map_of (objects s) (cldf_table c) = Some os"
      "s' = s\<lparr>objects := AList.update (cldf_table c) (os @ [d]) (objects s)\<rparr>"
  | (index_only) d i idx where "validate c kw = Inr d" "map_of d ''ID'' = Some i"
      "map_of (obj_index s) (cldf_table c) = Some idx" "i \<notin> idx"
      "map_of (objects s) (cldf_table c) = None"
      "s' = s\<lparr>obj_index := AList.update (cldf_table c) (insert i idx) (obj_index s)\<rparr>"
  | (new_id) d i idx os where "r = Inr d" "validate c kw = Inr d" "map_of d ''ID'' = Some i"
      "map_of (obj_index s) (cldf_table c) = Some idx" "i \<notin> idx"
      "map_of (objects s) (cldf_table c) = Some os"
      "s' = s\<lparr>obj_index := AList.update (cldf_table c) (insert i idx) (obj_index s),
               objects := AList.update (cldf_table c) (os @ [d]) (objects s)\<rparr>"
proof (cases "validate c kw")
  case (Inl e)
  with assms have "s' = s" by (simp add: add_object_def)
  then show ?thesis by (rule same)
next
  case (Inr d)
  show ?thesis
  proof (cases "map_of d ''ID''")
    case None
    show ?thesis
    proof (cases "map_of (objects s) (cldf_table c)")
      case N: None
      with assms Inr None have "s' = s" by (simp add: add_object_def)
      then show ?thesis by (rule same)
    next
      case (Some os)
      with assms Inr None show ?thesis by (intro no_id[of d os]) (auto simp: add_object_def)
    qed
  next
    case (Some i)
    show ?thesis
    proof (cases "map_of (obj_index s) (cldf_table c)")
      case None
      with assms Inr Some have "s' = s" by (simp add: add_object_def)
      then show ?thesis by (rule same)
    next
      case S: (Some idx)
      show ?thesis
      proof (cases "i \<in> idx")
        case True
        with assms Inr Some S have "s' = s" by (simp add: add_object_def)
        then show ?thesis by (rule same)
      next
        case False
        show ?thesis
        proof (cases "map_of (objects s) (cldf_table c)")
          case None
          with assms Inr Some S False show ?thesis
            by (intro index_only[of d i idx]) (auto simp: add_object_def Let_def)
        next
          case O: (Some os)
          with assms Inr Some S False show ?thesis
            by (intro new_id[of d i idx os]) (auto simp: add_object_def Let_def)
        qed
      qed
    qed
  qed
qed

lemma in_index_objects_update:
  "in_index (s\<lparr>objects := x\<rparr>) t i = in_index s t i"
  by (simp add: in_index_def)

lemma records_with_id_index_update:
  "records_with_id (s\<lparr>obj_index := x\<rparr>) t i = records_with_id s t i"
  by (simp add: records_with_id_def)

lemma in_index_insert:
  "map_of (obj_index s) t' = Some idx \<Longrightarrow>
   in_index (s\<lparr>obj_index := AList.update t' (insert j idx) (obj_index s)\<rparr>) t i =
     (in_index s t i \<or> (t = t' \<and> i = j))"
  by (auto simp: in_index_def update_conv')

lemma records_with_id_append:
  "map_of (objects s) t' = Some os \<Longrightarrow>
   records_with_id (s\<lparr>objects := AList.update t' (os @ [d']) (objects s)\<rparr>) t i =
     records_with_id s t i @ (if t = t' \<and> map_of d' ''ID'' = Some i then [d'] else [])"
  by (auto simp: records_with_id_def update_conv')

lemma add_object_keeps_first:
  assumes "in_index s t i" and "records_with_id s t i = [d]"
    and "add_object s c kw = (r, s')"
  shows "in_index s' t i \<and> records_with_id s' t i = [d]"
  using assms(3)
proof (cases rule: add_object_cases)
  case same
  with assms show ?thesis by simp
next
  case (no_id d' os)
  with assms(1,2) show ?thesis
    by (simp add: in_index_objects_update records_with_id_append)
next
  case (index_only d' i' idx)
  with assms(1,2) show ?thesis
    by (simp add: in_index_insert records_with_id_index_update)
next
  case (new_id d' i' idx os)
  from new_id(4,5) assms(1) have "\<not> (t = cldf_table c \<and> i' = i)"
    by (auto simp: in_index_def)
  with new_id(3,4,6) assms(1,2) show ?thesis unfolding new_id(7)
    by (auto simp: in_index_def records_with_id_def update_conv')
qed

lemma add_objects_keeps_first:
  "in_index s t i \<Longrightarrow> records_with_id s t i = [d] \<Longrightarrow> add_objects s calls = (rs, s')
     \<Longrightarrow> in_index s' t i \<and> records_with_id s' t i = [d]"
proof (induction calls arbitrary: s rs)
  case Nil
  then show ?case by simp
next
  case (Cons call calls)
  obtain c kw where call: "call = (c, kw)" by force
  obtain r s1 where 1: "add_object s c kw = (r, s1)" by force
  obtain rs1 s2 where 2: "add_objects s1 calls = (rs1, s2)" by force
  from Cons.prems(3) call 1 2 have "s' = s2" by simp
  moreover from add_object_keeps_first[OF Cons.prems(1,2) 1]
  have "in_index s1 t i" "records_with_id s1 t i = [d]" by simp_all
  ultimately show ?case using Cons.IH[of s1 rs1] 2 by simp
qed

lemma add_object_new:
  assumes "validate c kw = Inr d" and "map_of d ''ID'' = Some i"
    and "map_of (obj_index s) (cldf_table c) = Some idx" and "i \<notin> idx"
  shows "add_object s c kw =
     (case map_of (objects s) (cldf_table c) of
        None \<Rightarrow> (Inl (KeyError (cldf_table c)),
                 s\<lparr>obj_index := AList.update (cldf_table c) (insert i idx) (obj_index s)\<rparr>)
      | Some os \<Rightarrow> (Inr d,
                 s\<lparr>obj_index := AList.update (cldf_table c) (insert i idx) (obj_index s),
                   objects := AList.update (cldf_table c) (os @ [d]) (objects s)\<rparr>))"
  using assms by (simp add: add_object_def Let_def split: option.splits)

lemma add_object_first:
  assumes "ids_indexed s (cldf_table c)" and "\<not> in_index s (cldf_table c) i"
    and "add_object s c kw = (Inr d, s1)" and "map_of d ''ID'' = Some i"
  shows "in_index s1 (cldf_table c) i \<and> records_with_id s1 (cldf_table c) i = [d]"
proof -
  have v: "validate c kw = Inr d" using assms(3) by (rule add_object_Inr_validate)
  from assms(3,4) v obtain idx where idx: "map_of (obj_index s) (cldf_table c) = Some idx"
    by (cases "map_of (obj_index s) (cldf_table c)") (auto simp: add_object_def)
  with assms(2) have ni: "i \<notin> idx" by (simp add: in_index_def)
  note new = add_object_new[OF v assms(4) idx ni]
  from new assms(3) obtain os where os: "map_of (objects s) (cldf_table c) = Some os"
    by (cases "map_of (objects s) (cldf_table c)") auto
  from new os assms(3) have
    s1: "s1 = s\<lparr>obj_index := AList.update (cldf_table c) (insert i idx) (obj_index s),
                objects := AList.update (cldf_table c) (os @ [d]) (objects s)\<rparr>"
    by simp
  from assms(1,2) os idx have "filter (\<lambda>d. map_of d ''ID'' = Some i) os = []"
    by (auto simp: ids_indexed_def in_index_def list_all_iff filter_empty_conv split: option.splits)
  with os idx assms(4) show ?thesis unfolding s1
    by (simp add: in_index_def records_with_id_def update_conv')
qed

text \<open>
  C1. Let a record with identifier \<open>i\<close> be inserted into a table whose index does not
  hold \<open>i\<close>, and let any sequence of insert calls follow, into any tables and with any
  records. Then the table holds exactly one record under \<open>i\<close>, the one inserted first;
  and a further insert of a record with identifier \<open>i\<close> into that table returns
  without an exception and leaves the whole state, table and index, as it was.
\<close>

theorem first_insert_wins:
  assumes "ids_indexed s (cldf_table c)" and "\<not> in_index s (cldf_table c) i"
    and "add_object s c kw = (Inr d, s1)" and "map_of d ''ID'' = Some i"
    and "add_objects s1 calls = (rs, s2)"
  shows "records_with_id s2 (cldf_table c) i = [d] \<and>
         (\<forall>c' kw' d'. cldf_table c' = cldf_table c \<and> validate c' kw' = Inr d' \<and> map_of d' ''ID'' = Some i
            \<longrightarrow> add_object s2 c' kw' = (Inr d', s2))"
proof -
  from add_object_first[OF assms(1-4)]
  have "in_index s1 (cldf_table c) i" "records_with_id s1 (cldf_table c) i = [d]" by simp_all
  from add_objects_keeps_first[OF this assms(5)]
  have 2: "in_index s2 (cldf_table c) i" "records_with_id s2 (cldf_table c) i = [d]" by simp_all
  then show ?thesis by (auto intro: add_object_duplicate)
qed

lemmas store_eval =
  dataset_init_def example_dataset_def plain_class_def add_object_def validate_def id_keys_def
  dict_get_def ID_PATTERN_match_def id_char_def Let_def records_with_id_def in_index_def
  ids_indexed_def english_def english_again_def hand_def str_int_def str_nat.simps digit_char_def
  newline_language_def newline_lexeme_def

theorem first_insert_wins_witness:
  "records_with_id
     (snd (add_objects
        (snd (add_object (dataset_init example_dataset) (language_class example_dataset) english))
        [(language_class example_dataset, english_again), (concept_class example_dataset, hand)]))
     ''LanguageTable'' (PStr ''L1'') = [english] \<and>
   fst (add_object
     (snd (add_objects
        (snd (add_object (dataset_init example_dataset) (language_class example_dataset) english))
        [(language_class example_dataset, english_again), (concept_class example_dataset, hand)]))
     (language_class example_dataset) english_again) = Inr english_again"
proof -
  let ?s0 = "dataset_init example_dataset :: unit state"
  let ?c = "language_class example_dataset"
  let ?calls = "[(?c, english_again), (concept_class example_dataset, hand)]"
  let ?s1 = "snd (add_object ?s0 ?c english)"
  let ?s2 = "snd (add_objects ?s1 ?calls)"
  have t: "cldf_table ?c = ''LanguageTable''" by (simp add: store_eval)
  have h1: "ids_indexed ?s0 (cldf_table ?c)" by (simp add: store_eval)
  have h2: "\<not> in_index ?s0 (cldf_table ?c) (PStr ''L1'')" by (simp add: store_eval)
  have "fst (add_object ?s0 ?c english) = Inr english" by (simp add: store_eval)
  then have h3: "add_object ?s0 ?c english = (Inr english, ?s1)" by (simp add: prod_eq_iff)
  have h4: "map_of english ''ID'' = Some (PStr ''L1'')" by (simp add: english_def)
  have h5: "add_objects ?s1 ?calls = (fst (add_objects ?s1 ?calls), ?s2)" by simp
  have v: "validate ?c english_again = Inr english_again" by (simp add: store_eval)
  have i: "map_of english_again ''ID'' = Some (PStr ''L1'')" by (simp add: english_again_def)
  from first_insert_wins[OF h1 h2 h3 h4 h5] v i
  have "records_with_id ?s2 (cldf_table ?c) (PStr ''L1'') = [english]"
    and "add_object ?s2 ?c english_again = (Inr english_again, ?s2)" by blast+
  then show ?thesis by (simp add: t)
qed

lemma ids_indexed_init: "ids_indexed (dataset_init ds) t"
proof -
  have "map_of (fold (\<lambda>t. AList.update t []) ts acc) t = Some os \<Longrightarrow> os = [] \<or> map_of acc t = Some os"
    for ts and acc :: "(string \<times> dict list) list" and os
  proof (induction ts arbitrary: acc)
    case Nil
    then show ?case by simp
  next
    case (Cons a ts)
    from Cons.prems have "map_of (fold (\<lambda>t. AList.update t []) ts (AList.update a [] acc)) t = Some os"
      by simp
    from Cons.IH[OF this] show ?case by (auto simp: update_conv' split: if_splits)
  qed
  from this[of _ "[]"] show ?thesis
    by (auto simp: ids_indexed_def dataset_init_def Let_def split: option.splits)
qed

lemma add_object_ids_indexed:
  assumes "ids_indexed s t" and "add_object s c kw = (r, s')"
  shows "ids_indexed s' t"
  using assms(2)
proof (cases rule: add_object_cases)
  case same
  with assms(1) show ?thesis by simp
next
  case (no_id d os)
  with assms(1) show ?thesis
    by (auto simp: ids_indexed_def in_index_def update_conv' list_all_iff split: option.splits)
next
  case (index_only d i idx)
  with assms(1) show ?thesis
    by (auto simp: ids_indexed_def in_index_def update_conv' list_all_iff split: option.splits)
next
  case (new_id d i idx os)
  with assms(1) show ?thesis
    by (auto simp: ids_indexed_def in_index_def update_conv' list_all_iff split: option.splits)
qed


section \<open>The identifier check\<close>

lemma dict_get_update:
  "dict_get (AList.update k v d) k' = (if k' = k then v else dict_get d k')"
  by (simp add: dict_get_def update_conv')

lemma stringify_ids_invalid:
  "key \<in> set keys \<Longrightarrow> dict_get d key \<noteq> PNone \<Longrightarrow> \<not> ID_PATTERN_match (format0 (dict_get d key))
     \<Longrightarrow> \<exists>m. stringify_ids t keys d = Inl (ValueError m)"
proof (induction keys arbitrary: d)
  case Nil
  then show ?case by simp
next
  case (Cons k keys)
  show ?case
  proof (cases "dict_get d k \<noteq> PNone \<and> \<not> ID_PATTERN_match (format0 (dict_get d k))")
    case True
    then show ?thesis by (simp add: Let_def)
  next
    case False
    with Cons.prems have ne: "key \<noteq> k" "key \<in> set keys" by auto
    show ?thesis
    proof (cases "dict_get d k = PNone")
      case True
      with Cons.IH[OF ne(2) Cons.prems(2,3)] show ?thesis by simp
    next
      case nn: False
      let ?d = "AList.update k (PStr (format0 (dict_get d k))) d"
      from ne have "dict_get ?d key = dict_get d key" by (simp add: dict_get_update)
      with Cons.prems have "dict_get ?d key \<noteq> PNone" "\<not> ID_PATTERN_match (format0 (dict_get ?d key))"
        by simp_all
      from Cons.IH[OF ne(2) this] nn False show ?thesis by (simp add: Let_def)
    qed
  qed
qed

text \<open>
  An identifier field whose string does not pass \<^verbatim>\<open>ID_PATTERN.match\<close> makes the
  insertion raise \<^verbatim>\<open>ValueError\<close> before the store is touched.
\<close>

lemma add_object_invalid_identifier:
  assumes "asdict_new c kw = Inr d" and "key \<in> set id_keys"
    and "dict_get d key \<noteq> PNone" and "\<not> ID_PATTERN_match (format0 (dict_get d key))"
  shows "\<exists>m. add_object s c kw = (Inl (ValueError m), s)"
proof -
  from stringify_ids_invalid[OF assms(2,3,4)] obtain m
    where "stringify_ids (cldf_table c) id_keys d = Inl (ValueError m)" by blast
  with assms(1) have "add_object s c kw = (Inl (ValueError m), s)"
    by (simp add: add_object_def validate_def)
  then show ?thesis ..
qed

text \<open>What \<^verbatim>\<open>ID_PATTERN.match\<close> accepts: a non-empty run of class characters, and also
  such a run followed by one newline.\<close>

lemma ID_PATTERN_match_iff:
  "ID_PATTERN_match s \<longleftrightarrow>
     (\<exists>w. w \<noteq> [] \<and> list_all id_char w \<and> (s = w \<or> s = w @ [CHR 0x0A]))"
proof
  assume m: "ID_PATTERN_match s"
  let ?w = "takeWhile id_char s"
  have split: "?w @ dropWhile id_char s = s" by (rule takeWhile_dropWhile_id)
  from m have "dropWhile id_char s = [] \<or> dropWhile id_char s = [CHR 0x0A]"
    by (simp add: ID_PATTERN_match_def Let_def)
  then have "s = ?w \<or> s = ?w @ [CHR 0x0A]"
  proof
    assume "dropWhile id_char s = []"
    with split have "?w @ [] = s" by (simp only:)
    then show ?thesis by (simp only: append_Nil2) simp
  next
    assume "dropWhile id_char s = [CHR 0x0A]"
    with split have "?w @ [CHR 0x0A] = s" by (simp only:)
    then have "s = ?w @ [CHR 0x0A]" by (rule sym)
    then show ?thesis by (rule disjI2)
  qed
  moreover have "list_all id_char ?w" by (auto simp: list_all_iff dest: set_takeWhileD)
  moreover from m have "?w \<noteq> []" by (simp add: ID_PATTERN_match_def Let_def)
  ultimately show "\<exists>w. w \<noteq> [] \<and> list_all id_char w \<and> (s = w \<or> s = w @ [CHR 0x0A])" by blast
next
  assume "\<exists>w. w \<noteq> [] \<and> list_all id_char w \<and> (s = w \<or> s = w @ [CHR 0x0A])"
  then obtain w where w: "w \<noteq> []" "list_all id_char w" "s = w \<or> s = w @ [CHR 0x0A]" by blast
  have nl: "\<not> id_char (CHR 0x0A)" by (simp add: id_char_def)
  from w(2) have a: "\<forall>x \<in> set w. id_char x" by (simp add: list_all_iff)
  then have tw: "takeWhile id_char w = w" "dropWhile id_char w = []" by simp_all
  from w(3) show "ID_PATTERN_match s"
  proof
    assume sw: "s = w"
    show ?thesis unfolding ID_PATTERN_match_def Let_def sw tw using w(1) by simp
  next
    assume sw: "s = w @ [CHR 0x0A]"
    from a nl have t: "takeWhile id_char (w @ [CHR 0x0A]) = w"
      by (simp add: takeWhile_append2)
    from a nl have d: "dropWhile id_char (w @ [CHR 0x0A]) = [CHR 0x0A]"
      by (simp add: dropWhile_append2)
    show ?thesis unfolding ID_PATTERN_match_def Let_def sw t d using w(1) by simp
  qed
qed

text \<open>
  The scenario of the identifier \<^verbatim>\<open>bad id!\<close>: the insertion raises and the store is
  as before.
\<close>

lemma bad_id_raises:
  "add_object (dataset_init example_dataset) (language_class example_dataset)
     [(''ID'', PStr ''bad id!'')] =
   (Inl (ValueError ''invalid CLDF identifier LanguageTable-ID: bad id!''),
    dataset_init example_dataset)"
  by (simp add: store_eval)

text \<open>
  C2. An identifier of class characters followed by one newline does not consist of
  characters of \<^verbatim>\<open>[A-Za-z0-9_-]\<close> only, yet \<^verbatim>\<open>ID_PATTERN.match\<close> accepts it: the
  insertion of the language \<^verbatim>\<open>"L1\n"\<close> returns the record and stores it under that
  identifier.
\<close>

theorem trailing_newline_id_accepted:
  "fst (add_object (dataset_init example_dataset) (language_class example_dataset) newline_language)
     = Inr newline_language \<and>
   records_with_id
     (snd (add_object (dataset_init example_dataset) (language_class example_dataset) newline_language))
     ''LanguageTable'' (PStr [CHR ''L'', CHR ''1'', CHR 0x0A]) = [newline_language]"
  by (simp add: store_eval)

text \<open>
  C10. The same holds for the other identifier fields: a lexeme with the identifier
  \<^verbatim>\<open>1\<close> and the \<^verbatim>\<open>Language_ID\<close> \<^verbatim>\<open>"L1\n"\<close> is inserted into the form table.
\<close>

theorem trailing_newline_language_id_accepted:
  "fst (add_object (dataset_init example_dataset) (lexeme_class example_dataset) newline_lexeme)
     = Inr newline_lexeme \<and>
   records_with_id
     (snd (add_object (dataset_init example_dataset) (lexeme_class example_dataset) newline_lexeme))
     ''FormTable'' (PStr ''1'') = [newline_lexeme]"
  by (simp add: store_eval)

section \<open>The returned record\<close>

text \<open>
  C9, as stated, fails: after the language \<^verbatim>\<open>L1\<close> named English is stored, the insert
  of \<^verbatim>\<open>L1\<close> named Anglais returns the Anglais record, while the record stored under
  \<^verbatim>\<open>L1\<close> is the English one.
\<close>

theorem returned_record_not_stored_counterexample:
  "fst (add_object
          (snd (add_object (dataset_init example_dataset) (language_class example_dataset) english))
          (language_class example_dataset) english_again) = Inr english_again \<and>
   records_with_id
     (snd (add_object
          (snd (add_object (dataset_init example_dataset) (language_class example_dataset) english))
          (language_class example_dataset) english_again))
     ''LanguageTable'' (PStr ''L1'') = [english] \<and>
   english_again \<noteq> english"
  by (simp add: store_eval)

text \<open>
  C9, amended. A successful insert call returns the validated record of its own
  arguments. When the record has no identifier, or its identifier is not in the index of
  the table, that record is appended to the table (and its identifier entered in the
  index), so it is the stored one. When the identifier is in the index, the state is left
  as it was, and the returned record is still the new one.
\<close>

theorem add_object_returns_own_record:
  assumes "add_object s c kw = (Inr d, s')"
  shows "validate c kw = Inr d \<and>
    (case map_of d ''ID'' of
       None \<Rightarrow> \<exists>os. map_of (objects s) (cldf_table c) = Some os \<and>
                    map_of (objects s') (cldf_table c) = Some (os @ [d])
     | Some i \<Rightarrow>
         if in_index s (cldf_table c) i then s' = s
         else \<exists>os. map_of (objects s) (cldf_table c) = Some os \<and>
                   map_of (objects s') (cldf_table c) = Some (os @ [d]) \<and>
                   in_index s' (cldf_table c) i)"
proof -
  have v: "validate c kw = Inr d" using assms by (rule add_object_Inr_validate)
  show ?thesis
  proof (cases "map_of d ''ID''")
    case None
    with assms v show ?thesis
      by (auto simp: add_object_def Let_def update_conv' split: option.splits)
  next
    case (Some i)
    show ?thesis
    proof (cases "in_index s (cldf_table c) i")
      case True
      from add_object_duplicate[OF v Some True] assms Some True v show ?thesis by simp
    next
      case False
      with assms v Some obtain idx where idx: "map_of (obj_index s) (cldf_table c) = Some idx"
        by (cases "map_of (obj_index s) (cldf_table c)") (auto simp: add_object_def)
      with False have ni: "i \<notin> idx" by (simp add: in_index_def)
      note new = add_object_new[OF v Some idx ni]
      from new assms obtain os where os: "map_of (objects s) (cldf_table c) = Some os"
        by (cases "map_of (objects s) (cldf_table c)") auto
      from new os assms have
        "s' = s\<lparr>obj_index := AList.update (cldf_table c) (insert i idx) (obj_index s),
                objects := AList.update (cldf_table c) (os @ [d]) (objects s)\<rparr>" by simp
      with os v Some False show ?thesis by (simp add: in_index_def update_conv')
    qed
  qed
qed

theorem add_object_returns_own_record_witness:
  "validate (language_class example_dataset) english_again = Inr english_again \<and>
   snd (add_object
          (snd (add_object (dataset_init example_dataset) (language_class example_dataset) english))
          (language_class example_dataset) english_again) =
   snd (add_object (dataset_init example_dataset) (language_class example_dataset) english)"
proof -
  let ?c = "language_class example_dataset"
  let ?s1 = "snd (add_object (dataset_init example_dataset :: unit state) ?c english)"
  have "fst (add_object ?s1 ?c english_again) = Inr english_again" by (simp add: store_eval)
  then have h: "add_object ?s1 ?c english_again = (Inr english_again, snd (add_object ?s1 ?c english_again))"
    by (simp add: prod_eq_iff)
  have i: "map_of english_again ''ID'' = Some (PStr ''L1'')" by (simp add: english_again_def)
  have x: "in_index ?s1 (cldf_table ?c) (PStr ''L1'')" by (simp add: store_eval)
  from add_object_returns_own_record[OF h] i x show ?thesis by simp
qed

section \<open>Finalization\<close>

lemma refs_of_Inr:
  "refs_of fk forms = Inr refs \<Longrightarrow> refs = {v. \<exists>f \<in> set forms. map_of f fk = Some v}"
proof (induction forms arbitrary: refs)
  case Nil
  then show ?case by simp
next
  case (Cons f forms)
  from Cons.prems obtain v r where v: "map_of f fk = Some v" and r: "refs_of fk forms = Inr r"
    and refs: "refs = insert v r"
    by (auto split: option.splits pyval.splits sum.splits)
  from Cons.IH[OF r] v refs show ?case by auto
qed

lemma filter_refs_Inr:
  "filter_refs refs os = Inr keep \<Longrightarrow>
     keep = filter (\<lambda>obj. case map_of obj ''ID'' of None \<Rightarrow> False | Some v \<Rightarrow> v \<in> refs) os"
proof (induction os arbitrary: keep)
  case Nil
  then show ?case by simp
next
  case (Cons obj os)
  from Cons.prems obtain v k where v: "map_of obj ''ID'' = Some v" and k: "filter_refs refs os = Inr k"
    and keep: "keep = (if v \<in> refs then obj # k else k)"
    by (auto split: option.splits pyval.splits sum.splits)
  from Cons.IH[OF k] v keep show ?case by simp
qed

lemma filter_refs_idem:
  "filter_refs refs os = Inr keep \<Longrightarrow> filter_refs refs keep = Inr keep"
proof (induction os arbitrary: keep)
  case Nil
  then show ?case by simp
next
  case (Cons obj os)
  from Cons.prems obtain v k where v: "map_of obj ''ID'' = Some v" and k: "filter_refs refs os = Inr k"
    and keep: "keep = (if v \<in> refs then obj # k else k)" and nl: "\<forall>xs. v \<noteq> PList xs"
    by (auto split: option.splits pyval.splits sum.splits)
  from Cons.IH[OF k] v keep nl show ?case by (cases v) auto
qed

lemma prune_Inr:
  assumes "prune fk tb s = (Inr u, s')"
  obtains forms refs os keep where
    "map_of (objects s) ''FormTable'' = Some forms" "refs_of fk forms = Inr refs"
    "map_of (objects s) tb = Some os" "filter_refs refs os = Inr keep"
    "s' = s\<lparr>objects := AList.update tb keep (objects s)\<rparr>"
  using assms by (auto simp: prune_def split: option.splits sum.splits)

lemma map_of_setdefault:
  "map_of (setdefault t v d) k =
     (case map_of d k of Some x \<Rightarrow> Some x | None \<Rightarrow> if k = t then Some v else None)"
  by (auto simp: setdefault_def map_add_def split: option.splits)

lemma map_of_setdefaults:
  "map_of (fold (\<lambda>t. setdefault t v) ts d) k =
     (case map_of d k of Some x \<Rightarrow> Some x | None \<Rightarrow> if k \<in> set ts then Some v else None)"
  by (induction ts arbitrary: d) (auto simp: map_of_setdefault split: option.splits)

lemma setdefault_present: "map_of d t \<noteq> None \<Longrightarrow> setdefault t v d = d"
  by (auto simp: setdefault_def)

lemma setdefaults_present:
  "\<forall>t \<in> set ts. map_of d t \<noteq> None \<Longrightarrow> fold (\<lambda>t. setdefault t v) ts d = d"
  by (induction ts arbitrary: d) (auto simp: setdefault_present)

lemma setdefaults_ensure:
  "t \<in> set ts \<Longrightarrow> map_of (fold (\<lambda>t. setdefault t v) ts d) t \<noteq> None"
  by (simp add: map_of_setdefaults split: option.splits)

lemma dataset_exit_Inr:
  assumes "dataset_exit s = (Inr u, s')"
  obtains objs forms refsP osP keepP refsL osL keepL where
    "objs = fold (\<lambda>t. setdefault t []) standard_tables (objects s)"
    "map_of objs ''FormTable'' = Some forms"
    "refs_of ''Parameter_ID'' forms = Inr refsP" "map_of objs ''ParameterTable'' = Some osP"
    "filter_refs refsP osP = Inr keepP"
    "refs_of ''Language_ID'' forms = Inr refsL" "map_of objs ''LanguageTable'' = Some osL"
    "filter_refs refsL osL = Inr keepL"
    "objects s' = AList.update ''LanguageTable'' keepL (AList.update ''ParameterTable'' keepP objs)"
    "s' = s\<lparr>objects := objects s', written := written s @ [objects s']\<rparr>"
proof -
  define objs where "objs = fold (\<lambda>t. setdefault t []) standard_tables (objects s)"
  define s0 where "s0 = s\<lparr>objects := objs\<rparr>"
  from assms obtain s1 where p1: "prune ''Parameter_ID'' ''ParameterTable'' s0 = (Inr (), s1)"
    by (auto simp: dataset_exit_def Let_def s0_def objs_def standard_tables_def
        split: prod.splits sum.splits)
  with assms obtain s2 where p2: "prune ''Language_ID'' ''LanguageTable'' s1 = (Inr (), s2)"
    and w: "dataset_write s2 = (Inr u, s')"
    by (auto simp: dataset_exit_def Let_def s0_def objs_def standard_tables_def
        split: prod.splits sum.splits)
  from p1 obtain forms refsP osP keepP where 1:
    "map_of objs ''FormTable'' = Some forms" "refs_of ''Parameter_ID'' forms = Inr refsP"
    "map_of objs ''ParameterTable'' = Some osP" "filter_refs refsP osP = Inr keepP"
    "s1 = s0\<lparr>objects := AList.update ''ParameterTable'' keepP objs\<rparr>"
    by (rule prune_Inr) (auto simp: s0_def)
  from p2 obtain forms' refsL osL keepL where 2:
    "map_of (objects s1) ''FormTable'' = Some forms'" "refs_of ''Language_ID'' forms' = Inr refsL"
    "map_of (objects s1) ''LanguageTable'' = Some osL" "filter_refs refsL osL = Inr keepL"
    "s2 = s1\<lparr>objects := AList.update ''LanguageTable'' keepL (objects s1)\<rparr>"
    by (rule prune_Inr)
  from 1 2(1) have f: "forms' = forms" by (simp add: update_conv')
  from 1 2(3) have l: "map_of objs ''LanguageTable'' = Some osL" by (simp add: update_conv')
  from w 1(5) 2(5) have s': "objects s' = AList.update ''LanguageTable'' keepL (AList.update ''ParameterTable'' keepP objs)"
    "s' = s\<lparr>objects := objects s', written := written s @ [objects s']\<rparr>"
    by (auto simp: dataset_write_def s0_def)
  from objs_def 1(1-4) 2(2)[unfolded f] l 2(4) s' show ?thesis by (rule that)
qed


lemma table_after_setdefaults:
  "(case map_of (fold (\<lambda>t. setdefault t []) ts (objects s)) t of None \<Rightarrow> [] | Some os \<Rightarrow> os)
     = table s t"
  by (simp add: map_of_setdefaults table_def split: option.splits)

lemma filter_refs_referenced:
  assumes "refs_of fk forms = Inr refs" and "filter_refs refs os = Inr keep"
  shows "keep = filter (referenced fk forms) os"
proof -
  have "(\<lambda>obj. case map_of obj ''ID'' of None \<Rightarrow> False | Some v \<Rightarrow> v \<in> refs) = referenced fk forms"
    by (auto simp: refs_of_Inr[OF assms(1)] referenced_def list_ex_iff fun_eq_iff split: option.splits)
  with filter_refs_Inr[OF assms(2)] show ?thesis by simp
qed

text \<open>
  C3. When \<^verbatim>\<open>__exit__\<close> completes, the language table is the former language table
  restricted to the records whose identifier is the \<^verbatim>\<open>Language_ID\<close> of some record of
  the form table, and the concept table the former one restricted to the records whose
  identifier is the \<^verbatim>\<open>Parameter_ID\<close> of some form record: every record that remains is
  referenced and every other record is dropped. The form table and the cognate table are
  as before, and all four tables exist.
\<close>

theorem exit_prunes_unreferenced:
  assumes "dataset_exit s = (Inr u, s')"
  shows "table s' ''LanguageTable'' =
           filter (referenced ''Language_ID'' (table s' ''FormTable'')) (table s ''LanguageTable'') \<and>
         table s' ''ParameterTable'' =
           filter (referenced ''Parameter_ID'' (table s' ''FormTable'')) (table s ''ParameterTable'') \<and>
         (\<forall>l \<in> set (table s' ''LanguageTable'').
            \<exists>f \<in> set (table s' ''FormTable''). \<exists>v. map_of l ''ID'' = Some v \<and> map_of f ''Language_ID'' = Some v) \<and>
         (\<forall>c \<in> set (table s' ''ParameterTable'').
            \<exists>f \<in> set (table s' ''FormTable''). \<exists>v. map_of c ''ID'' = Some v \<and> map_of f ''Parameter_ID'' = Some v) \<and>
         table s' ''FormTable'' = table s ''FormTable'' \<and>
         table s' ''CognateTable'' = table s ''CognateTable'' \<and>
         (\<forall>t \<in> set standard_tables. map_of (objects s') t \<noteq> None)"
  using assms
proof (cases rule: dataset_exit_Inr)
  case (1 objs forms refsP osP keepP refsL osL keepL)
  have tab: "(case map_of objs t of None \<Rightarrow> [] | Some os \<Rightarrow> os) = table s t" for t
    unfolding 1(1) by (rule table_after_setdefaults)
  from tab[of "''FormTable''"] 1(2) have forms: "table s ''FormTable'' = forms" by simp
  from tab[of "''ParameterTable''"] 1(4) have osP: "table s ''ParameterTable'' = osP" by simp
  from tab[of "''LanguageTable''"] 1(7) have osL: "table s ''LanguageTable'' = osL" by simp
  have f': "table s' ''FormTable'' = forms"
    using 1(2) by (simp add: table_def 1(9) update_conv')
  have c': "table s' ''CognateTable'' = table s ''CognateTable''"
    using tab[of "''CognateTable''"] by (simp add: table_def 1(9) update_conv')
  have l': "table s' ''LanguageTable'' = keepL" by (simp add: table_def 1(9) update_conv')
  have p': "table s' ''ParameterTable'' = keepP" by (simp add: table_def 1(9) update_conv')
  have kl: "keepL = filter (referenced ''Language_ID'' forms) osL"
    using 1(6,8) by (rule filter_refs_referenced)
  have kp: "keepP = filter (referenced ''Parameter_ID'' forms) osP"
    using 1(3,5) by (rule filter_refs_referenced)
  have ex: "\<forall>t \<in> set standard_tables. map_of (objects s') t \<noteq> None"
    unfolding 1(9) 1(1) using setdefaults_ensure[of _ standard_tables "[]" "objects s"]
    by (auto simp: update_conv')
  have rl: "\<forall>l \<in> set keepL. \<exists>f \<in> set forms. \<exists>v. map_of l ''ID'' = Some v \<and> map_of f ''Language_ID'' = Some v"
    unfolding kl by (auto simp: referenced_def list_ex_iff split: option.splits)
  have rp: "\<forall>c \<in> set keepP. \<exists>f \<in> set forms. \<exists>v. map_of c ''ID'' = Some v \<and> map_of f ''Parameter_ID'' = Some v"
    unfolding kp by (auto simp: referenced_def list_ex_iff split: option.splits)
  show ?thesis
    unfolding f' c' l' p' forms osP osL using kl kp rl rp ex forms by simp
qed

lemma prune_Inl: "prune fk tb s = (Inl e, s') \<Longrightarrow> s' = s"
  by (auto simp: prune_def split: option.splits sum.splits)

lemma prune_again:
  assumes "prune fk tb s = (Inr u, s1)" and "tb \<noteq> ''FormTable''"
  shows "prune fk tb s1 = (Inr (), s1)"
  using assms(1)
proof (cases rule: prune_Inr)
  case (1 forms refs os keep)
  from 1(1) assms(2) have f: "map_of (objects s1) ''FormTable'' = Some forms"
    by (simp add: 1(5) update_conv')
  have t: "map_of (objects s1) tb = Some keep" by (simp add: 1(5) update_conv')
  have "s1\<lparr>objects := objects s1\<rparr> = s1" by simp
  then show ?thesis
    by (simp add: prune_def f t 1(2) filter_refs_idem[OF 1(4)] update_triv[OF t])
qed

lemma prune_keeps_tables:
  assumes "prune fk tb s = (r, s1)" and "map_of (objects s) t \<noteq> None"
  shows "map_of (objects s1) t \<noteq> None"
  using assms by (auto simp: prune_def update_conv' split: option.splits sum.splits)

lemma prune_other_table:
  assumes "prune fk tb s = (r, s1)" and "t \<noteq> tb"
  shows "map_of (objects s1) t = map_of (objects s) t"
  using assms by (auto simp: prune_def update_conv' split: option.splits sum.splits)

lemma prune_fixed:
  assumes "prune fk tb s = (Inr u, s)"
    and "map_of (objects s') ''FormTable'' = map_of (objects s) ''FormTable''"
    and "map_of (objects s') tb = map_of (objects s) tb"
  shows "prune fk tb s' = (Inr (), s')"
  using assms(1)
proof (cases rule: prune_Inr)
  case (1 forms refs os keep)
  from 1(5) have "objects s = objects (s\<lparr>objects := AList.update tb keep (objects s)\<rparr>)"
    by (rule arg_cong)
  then have "objects s = AList.update tb keep (objects s)" by simp
  then have "map_of (objects s) tb = map_of (AList.update tb keep (objects s)) tb" by simp
  then have "map_of (objects s) tb = Some keep" by (simp add: update_conv')
  with 1(3) have k: "keep = os" by simp
  from 1(1) assms(2) have f: "map_of (objects s') ''FormTable'' = Some forms" by simp
  from 1(3) assms(3) have t: "map_of (objects s') tb = Some os" by simp
  have "s'\<lparr>objects := objects s'\<rparr> = s'" by simp
  then show ?thesis
    using 1(4)[unfolded k] by (simp add: prune_def f t 1(2) update_triv[OF t])
qed

text \<open>
  C7. Pruning is idempotent, for every state: running \<^verbatim>\<open>__exit__\<close> a second time ends
  as the first run did, normally or with the same exception, and leaves the table map
  exactly as the first run left it.
\<close>

theorem exit_idempotent:
  "fst (dataset_exit (snd (dataset_exit s))) = fst (dataset_exit s) \<and>
   objects (snd (dataset_exit (snd (dataset_exit s)))) = objects (snd (dataset_exit s))"
proof -
  define objs where "objs = fold (\<lambda>t. setdefault t []) standard_tables (objects s)"
  define s0 where "s0 = s\<lparr>objects := objs\<rparr>"
  have ex: "dataset_exit s =
     (case prune ''Parameter_ID'' ''ParameterTable'' s0 of
        (Inl e, s1) \<Rightarrow> (Inl e, s1)
      | (Inr u, s1) \<Rightarrow>
          (case prune ''Language_ID'' ''LanguageTable'' s1 of
             (Inl e, s2) \<Rightarrow> (Inl e, s2)
           | (Inr u, s2) \<Rightarrow> dataset_write s2))"
    by (simp add: dataset_exit_def Let_def s0_def objs_def standard_tables_def)
  have present0: "\<forall>t \<in> set standard_tables. map_of (objects s0) t \<noteq> None"
    using setdefaults_ensure[of _ standard_tables "[]" "objects s"] by (simp add: s0_def objs_def)
  have again: "dataset_exit s' =
     (case prune ''Parameter_ID'' ''ParameterTable'' s' of
        (Inl e, s1) \<Rightarrow> (Inl e, s1)
      | (Inr u, s1) \<Rightarrow>
          (case prune ''Language_ID'' ''LanguageTable'' s1 of
             (Inl e, s2) \<Rightarrow> (Inl e, s2)
           | (Inr u, s2) \<Rightarrow> dataset_write s2))"
    if "\<forall>t \<in> set standard_tables. map_of (objects s') t \<noteq> None" for s' :: "'a state"
  proof -
    from that have "fold (\<lambda>t. setdefault t []) standard_tables (objects s') = objects s'"
      by (rule setdefaults_present)
    then have "fold (\<lambda>t. setdefault t [])
        [''FormTable'', ''CognateTable'', ''LanguageTable'', ''ParameterTable''] (objects s') = objects s'"
      by (simp add: standard_tables_def)
    then show ?thesis unfolding dataset_exit_def Let_def by simp
  qed
  obtain r1 s1 where p1: "prune ''Parameter_ID'' ''ParameterTable'' s0 = (r1, s1)" by force
  show ?thesis
  proof (cases r1)
    case (Inl e)
    with p1 have "s1 = s0" by (auto dest: prune_Inl)
    with ex p1 Inl have 1: "dataset_exit s = (Inl e, s0)" by simp
    from again[OF present0] p1 Inl \<open>s1 = s0\<close> have "dataset_exit s0 = (Inl e, s0)" by simp
    with 1 show ?thesis by simp
  next
    case (Inr u)
    with p1 have p1': "prune ''Parameter_ID'' ''ParameterTable'' s0 = (Inr u, s1)" by simp
    have present1: "\<forall>t \<in> set standard_tables. map_of (objects s1) t \<noteq> None"
      using present0 prune_keeps_tables[OF p1] by blast
    have p1again: "prune ''Parameter_ID'' ''ParameterTable'' s1 = (Inr (), s1)"
      using p1' by (rule prune_again) simp
    obtain r2 s2 where p2: "prune ''Language_ID'' ''LanguageTable'' s1 = (r2, s2)" by force
    show ?thesis
    proof (cases r2)
      case (Inl e)
      with p2 have "s2 = s1" by (auto dest: prune_Inl)
      with ex p1' p2 Inl have 1: "dataset_exit s = (Inl e, s1)" by simp
      from again[OF present1] p1again p2 Inl \<open>s2 = s1\<close> have "dataset_exit s1 = (Inl e, s1)" by simp
      with 1 show ?thesis by simp
    next
      case r2: (Inr u2)
      with p2 have p2': "prune ''Language_ID'' ''LanguageTable'' s1 = (Inr u2, s2)" by simp
      have present2: "\<forall>t \<in> set standard_tables. map_of (objects s2) t \<noteq> None"
        using present1 prune_keeps_tables[OF p2] by blast
      from ex p1' p2' have 1: "dataset_exit s = (Inr (), s2\<lparr>written := written s2 @ [objects s2]\<rparr>)"
        by (simp add: dataset_write_def)
      let ?s3 = "s2\<lparr>written := written s2 @ [objects s2]\<rparr>"
      have present3: "\<forall>t \<in> set standard_tables. map_of (objects ?s3) t \<noteq> None"
        using present2 by simp
      have p2again: "prune ''Language_ID'' ''LanguageTable'' s2 = (Inr (), s2)"
        using p2' by (rule prune_again) simp
      have f2: "map_of (objects s2) ''FormTable'' = map_of (objects s1) ''FormTable''"
        using p2 by (rule prune_other_table) simp
      have t2: "map_of (objects s2) ''ParameterTable'' = map_of (objects s1) ''ParameterTable''"
        using p2 by (rule prune_other_table) simp
      have pa: "prune ''Parameter_ID'' ''ParameterTable'' ?s3 = (Inr (), ?s3)"
        using p1again by (rule prune_fixed) (simp_all add: f2 t2)
      have pb: "prune ''Language_ID'' ''LanguageTable'' ?s3 = (Inr (), ?s3)"
        using p2again by (rule prune_fixed) simp_all
      from again[OF present3] pa pb have "dataset_exit ?s3 = (Inr (), ?s3\<lparr>written := written ?s3 @ [objects ?s3]\<rparr>)"
        by (simp add: dataset_write_def)
      with 1 show ?thesis by simp
    qed
  qed
qed

lemmas exit_eval =
  dataset_exit_def prune_def dataset_write_def setdefault_def table_def referenced_def
  example_store_def german_def hand_lexeme_def standard_tables_def

theorem exit_prunes_unreferenced_witness:
  "table (snd (dataset_exit example_store)) ''LanguageTable'' = [english] \<and>
   table example_store ''LanguageTable'' = [english, german] \<and>
   table (snd (dataset_exit example_store)) ''ParameterTable'' = table example_store ''ParameterTable'' \<and>
   table (snd (dataset_exit example_store)) ''FormTable'' = table example_store ''FormTable''"
proof -
  have "fst (dataset_exit example_store) = Inr ()" by (simp add: store_eval exit_eval)
  then have h: "dataset_exit example_store = (Inr (), snd (dataset_exit example_store))"
    by (simp add: prod_eq_iff)
  have f: "table example_store ''FormTable'' =
     [[(''ID'', PStr ''1''), (''Language_ID'', PStr ''L1''), (''Parameter_ID'', PStr ''1''),
       (''Value'', PStr ''hand''), (''Form'', PStr ''hand'')]]"
    by (simp add: store_eval exit_eval)
  have l: "table example_store ''LanguageTable'' = [english, german]"
    by (simp add: store_eval exit_eval)
  have p: "table example_store ''ParameterTable'' = [[(''ID'', PStr ''1''), (''Name'', PStr ''hand'')]]"
    by (simp add: store_eval exit_eval)
  from exit_prunes_unreferenced[OF h] show ?thesis
    by (simp add: f l p referenced_def english_def german_def)
qed

theorem exit_idempotent_witness:
  "fst (dataset_exit (snd (dataset_exit example_store))) = Inr () \<and>
   objects (snd (dataset_exit (snd (dataset_exit example_store)))) =
   objects (snd (dataset_exit example_store))"
proof -
  have "fst (dataset_exit example_store) = Inr ()" by (simp add: store_eval exit_eval)
  with exit_idempotent[of example_store] show ?thesis by simp
qed

section \<open>Concepts\<close>

lemmas concept_eval = add_concept_def foot_def hand_concept_def getitem_def int_of_str_def
  int_strip_def int_isspace_def is_digit_def setdefault_def table_def

text \<open>
  C8, as stated, fails: the catalog of the example has no entry 9999, and
  \<^verbatim>\<open>add_concept\<close> of a concept with that \<^verbatim>\<open>Concepticon_ID\<close> and no gloss raises
  \<^verbatim>\<open>KeyError\<close>; the concept table stays empty.
\<close>

theorem missing_gloss_counterexample:
  "add_concept example_dataset (dataset_init example_dataset) foot =
     (Inl (KeyError ''9999''), dataset_init example_dataset) \<and>
   table (snd (add_concept example_dataset (dataset_init example_dataset) foot)) ''ParameterTable'' = []"
  by (simp add: store_eval concept_eval)

text \<open>With an entry in the catalog the gloss is filled in.\<close>

lemma hand_concept_gloss:
  "fst (add_concept example_dataset (dataset_init example_dataset) hand_concept) =
     Inr [(''ID'', PStr ''1''), (''Name'', PStr ''hand''), (''Concepticon_ID'', PStr ''1277''),
          (''Concepticon_Gloss'', PStr ''HAND'')]"
  by (simp add: store_eval concept_eval)

text \<open>
  C8, amended. Let \<^verbatim>\<open>add_concept\<close> be called with a \<^verbatim>\<open>Concepticon_ID\<close> that is
  true and that \<^verbatim>\<open>int\<close> reads as \<open>n\<close>, and with no \<^verbatim>\<open>Concepticon_Gloss\<close>. If
  \<^verbatim>\<open>cached_glosses\<close> has no entry for \<open>n\<close>, the call raises \<^verbatim>\<open>KeyError\<close> for \<open>n\<close>:
  the missing gloss is an error, no concept record is inserted, and the state is as
  before.
\<close>

theorem add_concept_missing_gloss_raises:
  assumes "truthy (dict_get kw ''Concepticon_ID'')"
    and "map_of kw ''Concepticon_Gloss'' = None"
    and "py_int (dict_get kw ''Concepticon_ID'') = Inr n"
    and "map_of (cached_glosses ds) n = None"
  shows "add_concept ds s kw = (Inl (KeyError (str_int n)), s)"
proof -
  from assms(1) obtain cid where "map_of kw ''Concepticon_ID'' = Some cid"
    by (cases "map_of kw ''Concepticon_ID''") (auto simp: dict_get_def)
  then have "getitem kw ''Concepticon_ID'' = Inr (dict_get kw ''Concepticon_ID'')"
    by (simp add: getitem_def dict_get_def)
  with assms(1,3,4) show ?thesis by (simp add: add_concept_def)
qed

theorem add_concept_missing_gloss_raises_witness:
  "truthy (dict_get foot ''Concepticon_ID'') \<and>
   map_of foot ''Concepticon_Gloss'' = None \<and>
   py_int (dict_get foot ''Concepticon_ID'') = Inr 9999 \<and>
   map_of (cached_glosses example_dataset) 9999 = None \<and>
   add_concept example_dataset (dataset_init example_dataset) foot =
     (Inl (KeyError (str_int 9999)), dataset_init example_dataset)"
proof -
  have 1: "truthy (dict_get foot ''Concepticon_ID'')" by (simp add: foot_def dict_get_def)
  have 2: "map_of foot ''Concepticon_Gloss'' = None" by (simp add: foot_def)
  have 3: "py_int (dict_get foot ''Concepticon_ID'') = Inr 9999" by (simp add: foot_def dict_get_def)
  have 4: "map_of (cached_glosses example_dataset) 9999 = None" by (simp add: example_dataset_def)
  from add_concept_missing_gloss_raises[OF 1 2 3 4] 1 2 3 4 show ?thesis by simp
qed

text \<open>
  A \<^verbatim>\<open>Concepticon_ID\<close> that \<^verbatim>\<open>int\<close> does not read raises \<^verbatim>\<open>ValueError\<close> before the
  lookup: a leading separator 28 is white space for \<^verbatim>\<open>str.strip\<close>, not for \<^verbatim>\<open>int\<close>.
\<close>

lemma int_rejects_separator:
  "is_ValueError (projl (py_int (PStr (CHR 0x1C # ''9999'')))) \<and>
   isl (py_int (PStr (CHR 0x1C # ''9999''))) \<and>
   py_int (PStr (CHR 0xA0 # ''9999'' @ [CHR 0x85])) = Inr 9999 \<and>
   strip (CHR 0x1C # ''9999'') = ''9999''"
  by (simp add: int_of_str_def int_strip_def int_isspace_def is_digit_def strip_def py_isspace_def)

section \<open>Lexemes\<close>

lemma add_lexemes_analysis_store:
  assumes "add_lexemes_analysis ds kw s = (res, s')"
  shows "objects s' = objects s \<and> obj_index s' = obj_index s \<and> count s' = count s \<and>
         cognate_count s' = cognate_count s"
  using assms
  by (auto simp: add_lexemes_analysis_def Let_def split: sum.splits if_splits prod.splits)



text \<open>
  The scenario of a lexeme with an unresolvable token, through \<^verbatim>\<open>add_lexemes\<close>: the record
  is in the form table and its keyword dict in \<^verbatim>\<open>tr_bad_words\<close>.
\<close>

lemma flagged_lexeme_retained:
  "fst (add_lexemes example_dataset (dataset_init example_dataset) axe) = Inr [axe_kw] \<and>
   table (snd (add_lexemes example_dataset (dataset_init example_dataset) axe)) ''FormTable'' = [axe_kw] \<and>
   tr_bad_words (snd (add_lexemes example_dataset (dataset_init example_dataset) axe)) = [axe_kw]"
  by code_simp

lemma stringify_ids_map_of:
  "stringify_ids t keys d0 = Inr d \<Longrightarrow>
     map_of d k = (if k \<in> set keys \<and> dict_get d0 k \<noteq> PNone
                   then Some (PStr (format0 (dict_get d0 k))) else map_of d0 k)"
proof (induction keys arbitrary: d0)
  case Nil
  then show ?case by simp
next
  case (Cons key keys)
  show ?case
  proof (cases "dict_get d0 key = PNone")
    case True
    with Cons.prems have "stringify_ids t keys d0 = Inr d" by simp
    from Cons.IH[OF this] True show ?thesis by auto
  next
    case False
    let ?s = "format0 (dict_get d0 key)"
    let ?d = "AList.update key (PStr ?s) d0"
    from Cons.prems False have r: "stringify_ids t keys ?d = Inr d"
      by (simp add: Let_def split: if_splits)
    note IH = Cons.IH[OF r]
    show ?thesis
    proof (cases "k = key")
      case True
      with IH False show ?thesis by (simp add: dict_get_update update_conv')
    next
      case ne: False
      with IH show ?thesis by (simp add: dict_get_update update_conv')
    qed
  qed
qed

lemma add_object_appended:
  assumes "add_object s c kw = (Inr d, s')" and "map_of d ''ID'' = Some i"
    and "\<not> in_index s (cldf_table c) i"
  obtains idx os where "map_of (obj_index s) (cldf_table c) = Some idx"
    "map_of (objects s) (cldf_table c) = Some os"
    "s' = s\<lparr>obj_index := AList.update (cldf_table c) (insert i idx) (obj_index s),
             objects := AList.update (cldf_table c) (os @ [d]) (objects s)\<rparr>"
proof -
  have v: "validate c kw = Inr d" using assms(1) by (rule add_object_Inr_validate)
  from assms(1,2) v obtain idx where idx: "map_of (obj_index s) (cldf_table c) = Some idx"
    by (cases "map_of (obj_index s) (cldf_table c)") (auto simp: add_object_def)
  with assms(3) have ni: "i \<notin> idx" by (simp add: in_index_def)
  note new = add_object_new[OF v assms(2) idx ni]
  from new assms(1) obtain os where os: "map_of (objects s) (cldf_table c) = Some os"
    by (cases "map_of (objects s) (cldf_table c)") auto
  from new os assms(1) have
    "s' = s\<lparr>obj_index := AList.update (cldf_table c) (insert i idx) (obj_index s),
             objects := AList.update (cldf_table c) (os @ [d]) (objects s)\<rparr>"
    by simp
  with idx os show ?thesis by (rule that)
qed

lemma add_lexemes_clean_result:
  assumes "add_lexemes_clean ds kw v form s = (form', s2)"
  shows "form' = strip (clean_form ds kw form) \<and> count s2 = count s \<and>
         objects s2 = objects s \<and> obj_index s2 = obj_index s"
  using assms by (auto simp: add_lexemes_clean_def log_debug_def Let_def split: if_splits)

lemma add_lexemes_form_skip:
  assumes "form = [] \<or> strip (clean_form ds kw form) = []"
    and "add_lexemes_form ds kw v form s = (r, s')"
  shows "r = Inr None \<and> count s' = count s \<and> objects s' = objects s \<and> obj_index s' = obj_index s"
proof (cases "form = []")
  case True
  with assms(2) show ?thesis by (simp add: add_lexemes_form_def)
next
  case False
  obtain form' s2 where c: "add_lexemes_clean ds kw v form s = (form', s2)" by force
  from add_lexemes_clean_result[OF c] assms(1) False have "form' = []" by simp
  with assms(2) False c add_lexemes_clean_result[OF c] show ?thesis
    by (simp add: add_lexemes_form_def)
qed

lemma add_lexemes_form_insert:
  assumes keep: "keeps_id_and_form (lexeme_class ds)"
    and fresh: "fresh_ids ds s"
    and ne: "form \<noteq> []" "strip (clean_form ds kw form) \<noteq> []"
    and run: "add_lexemes_form ds kw v form s = (Inr r, s')"
  shows "\<exists>d. r = Some d \<and>
           map_of d ''Form'' = Some (PStr (strip (clean_form ds kw form))) \<and>
           map_of d ''ID'' = Some (PStr (str_int (count s + 1))) \<and>
           count s' = count s + 1 \<and>
           table s' (cldf_table (lexeme_class ds)) = table s (cldf_table (lexeme_class ds)) @ [d] \<and>
           fresh_ids ds s'"
proof -
  let ?c = "lexeme_class ds"
  let ?t = "cldf_table ?c"
  let ?form = "strip (clean_form ds kw form)"
  let ?i = "PStr (str_int (count s + 1))"
  obtain form' s2 where c: "add_lexemes_clean ds kw v form s = (form', s2)" by force
  from add_lexemes_clean_result[OF c]
  have form': "form' = ?form" and s2: "count s2 = count s" "objects s2 = objects s"
    "obj_index s2 = obj_index s" by simp_all
  define s3 where "s3 = s2\<lparr>count := count s2 + 1\<rparr>"
  have s3: "count s3 = count s + 1" "objects s3 = objects s" "obj_index s3 = obj_index s"
    by (simp_all add: s3_def s2)
  define kw2 where "kw2 = AList.update ''Form'' (PStr form')
      (AList.update ''ID'' (PStr (format0 (PInt (count s3))))
      (setdefault ''Segments'' (PList (case tokenize ds kw form' of None \<Rightarrow> [] | Some ts \<Rightarrow> ts)) kw))"
  from ne form' have ne': "form' \<noteq> []" by simp
  from run ne(1) ne' c have body: "(case add_object s3 ?c kw2 of
                  (Inl e, s4) \<Rightarrow> (Inl e, s4)
                | (Inr d, s4) \<Rightarrow>
                    (case add_lexemes_analysis ds kw2 s4 of
                       (Inl e, s5) \<Rightarrow> (Inl e, s5)
                     | (Inr u, s5) \<Rightarrow> (Inr (Some d), s5))) = (Inr r, s')"
    unfolding add_lexemes_form_def lexeme_id_def Let_def kw2_def s3_def
    by (simp only: if_True split_conv simp_thms)
  from body obtain d s4 where ins: "add_object s3 ?c kw2 = (Inr d, s4)"
    and an: "add_lexemes_analysis ds kw2 s4 = (Inr (), s')" and r: "r = Some d"
    by (auto split: prod.splits sum.splits)
  have v: "validate ?c kw2 = Inr d" using ins by (rule add_object_Inr_validate)
  then obtain d0 where d0: "asdict_new ?c kw2 = Inr d0"
    and st: "stringify_ids ?t id_keys d0 = Inr d"
    by (auto simp: validate_def split: sum.splits)
  from keep d0 have k: "map_of d0 ''ID'' = map_of kw2 ''ID''" "map_of d0 ''Form'' = map_of kw2 ''Form''"
    by (auto simp: keeps_id_and_form_def)
  have kw2: "map_of kw2 ''ID'' = Some ?i" "map_of kw2 ''Form'' = Some (PStr ?form)"
    by (simp_all add: kw2_def update_conv' s3 form')
  from stringify_ids_map_of[OF st, of "''ID''"] k kw2 have id: "map_of d ''ID'' = Some ?i"
    by (simp add: id_keys_def dict_get_def)
  from stringify_ids_map_of[OF st, of "''Form''"] k kw2 have form: "map_of d ''Form'' = Some (PStr ?form)"
    by (simp add: id_keys_def)
  from fresh s3 have ni: "\<not> in_index s3 ?t ?i"
    by (simp add: fresh_ids_def in_index_def)
  from ins id ni obtain idx os where idx: "map_of (obj_index s3) ?t = Some idx"
    and os: "map_of (objects s3) ?t = Some os"
    and s4: "s4 = s3\<lparr>obj_index := AList.update ?t (insert ?i idx) (obj_index s3),
                     objects := AList.update ?t (os @ [d]) (objects s3)\<rparr>"
    by (rule add_object_appended)
  from add_lexemes_analysis_store[OF an]
  have s': "objects s' = objects s4" "obj_index s' = obj_index s4" "count s' = count s4" by simp_all
  have cnt: "count s' = count s + 1" by (simp add: s' s4 s3)
  have tab: "table s' ?t = table s ?t @ [d]"
    using os by (simp add: table_def s' s4 s3 update_conv')
  have "fresh_ids ds s'"
    unfolding fresh_ids_def
  proof (intro allI impI)
    fix k assume "count s' < k"
    with cnt have k: "count s < k" "k \<noteq> count s + 1" by simp_all
    from k(2) have "str_int k \<noteq> str_int (count s + 1)" by (auto dest: str_int_inj)
    moreover from fresh k(1) idx s3 have "PStr (str_int k) \<notin> idx"
      by (simp add: fresh_ids_def in_index_def)
    ultimately show "\<not> in_index s' ?t (PStr (str_int k))"
      by (simp add: in_index_def s' s4 update_conv')
  qed
  with r form id cnt tab show ?thesis by simp
qed


lemma fresh_ids_same:
  "fresh_ids ds s \<Longrightarrow> count s' = count s \<Longrightarrow> obj_index s' = obj_index s \<Longrightarrow> fresh_ids ds s'"
  by (simp add: fresh_ids_def in_index_def)

lemma add_lexemes_loop_result:
  assumes keep: "keeps_id_and_form (lexeme_class ds)"
  shows "fresh_ids ds s \<Longrightarrow> add_lexemes_loop ds kw v forms acc s = (Inr lexemes, s') \<Longrightarrow>
    \<exists>new. lexemes = acc @ new \<and>
      map (\<lambda>d. map_of d ''Form'') new = map (\<lambda>f. Some (PStr f)) (surviving_forms ds kw forms) \<and>
      map (\<lambda>d. map_of d ''ID'') new =
        map (\<lambda>k. Some (PStr (str_int k)))
          [count s + 1 .. count s + int (length (surviving_forms ds kw forms))] \<and>
      count s' = count s + int (length (surviving_forms ds kw forms)) \<and>
      table s' (cldf_table (lexeme_class ds)) = table s (cldf_table (lexeme_class ds)) @ new \<and>
      fresh_ids ds s'"
proof (induction forms arbitrary: acc s)
  case Nil
  then show ?case by (simp add: surviving_forms_def)
next
  case (Cons form forms)
  let ?t = "cldf_table (lexeme_class ds)"
  obtain r s1 where f: "add_lexemes_form ds kw v form s = (r, s1)" by force
  show ?case
  proof (cases "form = [] \<or> strip (clean_form ds kw form) = []")
    case True
    from add_lexemes_form_skip[OF True f]
    have r: "r = Inr None" and s1: "count s1 = count s" "objects s1 = objects s"
      "obj_index s1 = obj_index s" by simp_all
    from Cons.prems(2) f r have loop: "add_lexemes_loop ds kw v forms acc s1 = (Inr lexemes, s')"
      by simp
    have fr: "fresh_ids ds s1" using Cons.prems(1) s1(1,3) by (rule fresh_ids_same)
    have sf: "surviving_forms ds kw (form # forms) = surviving_forms ds kw forms"
      using True by (auto simp: surviving_forms_def)
    have tab: "table s1 ?t = table s ?t" by (simp add: table_def s1)
    from Cons.IH[OF fr loop] show ?thesis by (simp add: sf s1 tab)
  next
    case False
    then have ne: "form \<noteq> []" "strip (clean_form ds kw form) \<noteq> []" by simp_all
    from Cons.prems(2) f obtain r' where r: "r = Inr r'"
      by (cases r) auto
    from add_lexemes_form_insert[OF keep Cons.prems(1) ne f[unfolded r]]
    obtain d where d: "r' = Some d"
      "map_of d ''Form'' = Some (PStr (strip (clean_form ds kw form)))"
      "map_of d ''ID'' = Some (PStr (str_int (count s + 1)))"
      "count s1 = count s + 1" "table s1 ?t = table s ?t @ [d]" "fresh_ids ds s1"
      by blast
    from Cons.prems(2) f r d(1)
    have loop: "add_lexemes_loop ds kw v forms (acc @ [d]) s1 = (Inr lexemes, s')" by simp
    have sf: "surviving_forms ds kw (form # forms) =
              strip (clean_form ds kw form) # surviving_forms ds kw forms"
      using ne by (simp add: surviving_forms_def)
    from Cons.IH[OF d(6) loop] obtain new where new: "lexemes = (acc @ [d]) @ new"
      "map (\<lambda>d. map_of d ''Form'') new = map (\<lambda>f. Some (PStr f)) (surviving_forms ds kw forms)"
      "map (\<lambda>d. map_of d ''ID'') new =
        map (\<lambda>k. Some (PStr (str_int k)))
          [count s1 + 1 .. count s1 + int (length (surviving_forms ds kw forms))]"
      "count s' = count s1 + int (length (surviving_forms ds kw forms))"
      "table s' ?t = table s1 ?t @ new" "fresh_ids ds s'"
      by blast
    have "lexemes = acc @ (d # new)" using new(1) by simp
    moreover have "map (\<lambda>d. map_of d ''Form'') (d # new) =
        map (\<lambda>f. Some (PStr f)) (surviving_forms ds kw (form # forms))"
      by (simp add: sf d(2) new(2))
    moreover have "map (\<lambda>d. map_of d ''ID'') (d # new) =
        map (\<lambda>k. Some (PStr (str_int k)))
          [count s + 1 .. count s + int (length (surviving_forms ds kw (form # forms)))]"
    proof -
      have ids: "[count s + 1 .. count s + int (length (surviving_forms ds kw (form # forms)))] =
          (count s + 1) # [count s1 + 1 .. count s1 + int (length (surviving_forms ds kw forms))]"
        unfolding sf d(4) by (simp only: length_Cons upto_shift)
      show ?thesis by (simp only: ids list.map d(3) new(3))
    qed
    moreover have "count s' = count s + int (length (surviving_forms ds kw (form # forms)))"
      by (simp add: sf new(4) d(4))
    moreover have "table s' ?t = table s ?t @ (d # new)" by (simp add: new(5) d(5))
    ultimately show ?thesis using new(6) by blast
  qed
qed

text \<open>
  C5. Let \<^verbatim>\<open>add_lexemes\<close> return normally on a row, for a lexeme class that keeps
  \<^verbatim>\<open>ID\<close> and \<^verbatim>\<open>Form\<close>, in a state where the lexeme identifiers above the counter are
  unused. Then the returned records are, in split order, one for each candidate that is
  not empty and stays not empty after cleaning and stripping, with that form as
  \<^verbatim>\<open>Form\<close>; their identifiers are the decimal strings of the next values of the
  counter, one after the other; the counter has advanced by their number; and the form
  table is the former form table followed by exactly the returned records.
\<close>

theorem add_lexemes_sequential:
  assumes "keeps_id_and_form (lexeme_class ds)" and "fresh_ids ds s"
    and "getitem kw ''Value'' = Inr v"
    and "add_lexemes ds s kw = (Inr lexemes, s')"
  shows "map (\<lambda>d. map_of d ''Form'') lexemes =
           map (\<lambda>f. Some (PStr f)) (surviving_forms ds kw (split_forms ds kw v)) \<and>
         map (\<lambda>d. map_of d ''ID'') lexemes =
           map (\<lambda>k. Some (PStr (str_int k)))
             [count s + 1 .. count s + int (length (surviving_forms ds kw (split_forms ds kw v)))] \<and>
         count s' = count s + int (length (surviving_forms ds kw (split_forms ds kw v))) \<and>
         table s' (cldf_table (lexeme_class ds)) = table s (cldf_table (lexeme_class ds)) @ lexemes \<and>
         fresh_ids ds s'"
proof -
  from assms(3,4) have "add_lexemes_loop ds kw v (split_forms ds kw v) [] s = (Inr lexemes, s')"
    by (simp add: add_lexemes_def)
  from add_lexemes_loop_result[OF assms(1,2) this] show ?thesis by simp
qed

theorem add_lexemes_sequential_witness:
  "fst (add_lexemes example_dataset (dataset_init example_dataset) go_walk) = Inr go_walk_lexemes \<and>
   map (\<lambda>d. map_of d ''Form'') go_walk_lexemes = [Some (PStr ''to go''), Some (PStr ''to walk'')] \<and>
   map (\<lambda>d. map_of d ''ID'') go_walk_lexemes = [Some (PStr ''1''), Some (PStr ''2'')] \<and>
   table (snd (add_lexemes example_dataset (dataset_init example_dataset) go_walk)) ''FormTable'' =
     go_walk_lexemes"
proof -
  let ?s = "dataset_init example_dataset :: unit state"
  let ?r = "add_lexemes example_dataset ?s go_walk"
  have t: "cldf_table (lexeme_class example_dataset) = ''FormTable''"
    by (simp add: example_dataset_def plain_class_def)
  have 1: "keeps_id_and_form (lexeme_class example_dataset)"
    by (simp add: keeps_id_and_form_def example_dataset_def plain_class_def)
  have 2: "fresh_ids example_dataset ?s"
    by (simp add: fresh_ids_def in_index_def dataset_init_def example_dataset_def plain_class_def)
  have 3: "getitem go_walk ''Value'' = Inr (PStr ''to go; to walk'')"
    by (simp add: getitem_def go_walk_def)
  have f: "fst ?r = Inr go_walk_lexemes" by code_simp
  then have 4: "?r = (Inr go_walk_lexemes, snd ?r)" by (simp add: prod_eq_iff)
  have sf: "surviving_forms example_dataset go_walk
              (split_forms example_dataset go_walk (PStr ''to go; to walk'')) = [''to go'', ''to walk'']"
    by code_simp
  have c: "count ?s = 0" by (simp add: dataset_init_def Let_def)
  have e: "table ?s ''FormTable'' = []" by code_simp
  from add_lexemes_sequential[OF 1 2 3 4] f show ?thesis
    by (simp add: sf t c e upto_rec1 str_int_def str_nat.simps digit_char_def)
qed

end
